theory Spec2Isabelle
  imports Main "HOL-Library.Sublist"
begin

section \<open>Python strings\<close>

text \<open>
  A Python \<open>str\<close> is modelled as a \<open>string\<close> whose characters are the code points
  below 256, so \<open>length\<close> counts what \<open>len\<close> counts. \<open>isspace\<close> and \<open>isalpha\<close> are
  \<open>str.isspace\<close> and \<open>str.isalpha\<close> on these code points; \<open>str.strip()\<close> and
  \<open>str.split()\<close> without arguments use the same whitespace class.
\<close>

definition isspace :: "char \<Rightarrow> bool" where
  "isspace c =
     (let n = (of_char c :: nat)
      in (9 \<le> n \<and> n \<le> 13) \<or> (28 \<le> n \<and> n \<le> 32) \<or> n = 133 \<or> n = 160)"

definition isalpha :: "char \<Rightarrow> bool" where
  "isalpha c =
     (let n = (of_char c :: nat)
      in (65 \<le> n \<and> n \<le> 90) \<or> (97 \<le> n \<and> n \<le> 122) \<or> n = 170 \<or> n = 181 \<or> n = 186
         \<or> (192 \<le> n \<and> n \<le> 214) \<or> (216 \<le> n \<and> n \<le> 246) \<or> (248 \<le> n \<and> n \<le> 255))"

definition strip :: "string \<Rightarrow> string" where
  "strip s = rev (dropWhile isspace (rev (dropWhile isspace s)))"

text \<open>\<open>s.split()\<close>: the maximal runs of non-whitespace characters, in order; \<open>w\<close> is
  the word read so far.\<close>

fun split_from :: "string \<Rightarrow> string \<Rightarrow> string list" where
  "split_from w [] = (if w = [] then [] else [w])"
| "split_from w (c # cs) =
     (if isspace c then (if w = [] then split_from [] cs else w # split_from [] cs)
      else split_from (w @ [c]) cs)"

definition split :: "string \<Rightarrow> string list" where
  "split s = split_from [] s"

fun join :: "string \<Rightarrow> string list \<Rightarrow> string" where
  "join sep [] = []"
| "join sep [x] = x"
| "join sep (x # y # ys) = x @ sep @ join sep (y # ys)"

text \<open>\<open>s.replace(old, new)\<close>: the non-overlapping occurrences of \<open>old\<close>, found from the
  left; an empty \<open>old\<close> matches before every character and at the end.\<close>

function replace :: "string \<Rightarrow> string \<Rightarrow> string \<Rightarrow> string" where
  "replace old new [] = (if old = [] then new else [])"
| "replace old new (c # cs) =
     (if old = [] then new @ c # replace old new cs
      else if prefix old (c # cs) then new @ replace old new (drop (length old) (c # cs))
      else c # replace old new cs)"
  by pat_completeness auto
termination
  by (relation "measure (\<lambda>(old, new, s). length s)") auto

section \<open>DataProcessor (utils.py)\<close>

text \<open>A review dictionary. The key \<open>review\<close> may be absent (\<open>None\<close>): the code reads it
  with \<open>review.get('review', '')\<close>.\<close>

record review_rec =
  restaurant_url :: string
  page :: nat
  review :: "string option"
  scraped_at :: string

definition get_review :: "review_rec \<Rightarrow> string" where
  "get_review r = (case review r of None \<Rightarrow> [] | Some t \<Rightarrow> t)"

definition patterns_to_remove :: "string list" where
  "patterns_to_remove =
     [''RATED'' @ [CHR 0x0A], ''Rated '', [CHR 0x0A], [CHR 0x0D], [CHR 0x09]]"

definition clean_review_text :: "string \<Rightarrow> string" where
  "clean_review_text text =
     (if text = [] then []
      else
        let text1 = join '' '' (split text);
            text2 = fold (\<lambda>pattern t. replace pattern '' '' t) patterns_to_remove text1;
            text3 = join '' '' (split text2)
        in strip text3)"

text \<open>The lists handed to \<open>validate_reviews\<close> and \<open>deduplicate_reviews\<close> hold references
  to dictionaries, and \<open>deduplicate_reviews\<close> overwrites the text of a kept dictionary in
  place; the same dictionary may occur in a list more than once. A list of records is
  therefore a list of addresses into a store of dictionaries.\<close>

type_synonym ref = nat
type_synonym store = "ref \<Rightarrow> review_rec"

text \<open>\<open>deduplicate_reviews\<close>: \<open>seen\<close> is \<open>seen_reviews\<close>; the references appended to
  \<open>unique_reviews\<close> are returned in the order of appending, with the store as the loop
  leaves it.\<close>

fun dedup_loop :: "string set \<Rightarrow> ref list \<Rightarrow> store \<Rightarrow> ref list \<times> store" where
  "dedup_loop seen [] h = ([], h)"
| "dedup_loop seen (r # rs) h =
     (let review_text = strip (get_review (h r))
      in if review_text \<noteq> [] \<and> review_text \<notin> seen
         then (let h1 = h(r := (h r)\<lparr>review := Some (clean_review_text review_text)\<rparr>);
                   (unique_reviews, h2) = dedup_loop (insert review_text seen) rs h1
               in (r # unique_reviews, h2))
         else dedup_loop seen rs h)"

definition deduplicate_reviews :: "ref list \<Rightarrow> store \<Rightarrow> ref list \<times> store" where
  "deduplicate_reviews reviews h = dedup_loop {} reviews h"

text \<open>\<open>validate_reviews\<close> reads the dictionaries and changes none.\<close>

fun validate_reviews :: "ref list \<Rightarrow> int \<Rightarrow> store \<Rightarrow> ref list" where
  "validate_reviews [] min_length h = []"
| "validate_reviews (r # rs) min_length h =
     (let review_text = strip (get_review (h r))
      in if int (length review_text) < min_length then validate_reviews rs min_length h
         else if replace [CHR 0x09] [] (replace [CHR 0x0A] [] (replace '' '' [] review_text)) = []
           then validate_reviews rs min_length h
         else if \<not> (\<exists>c \<in> set review_text. isalpha c) then validate_reviews rs min_length h
         else r # validate_reviews rs min_length h)"

section \<open>Configuration (config.py)\<close>

definition OUTPUT_FILE :: string where
  "OUTPUT_FILE = ''zomato_reviews_from_urls.csv''"

definition CHECKPOINT_FILE :: string where
  "CHECKPOINT_FILE = ''scraping_checkpoint.json''"

definition MAX_PAGES :: nat where
  "MAX_PAGES = 5"

definition CHUNK_SIZE :: nat where
  "CHUNK_SIZE = 10"

definition REVIEW_SELECTORS :: "string list" where
  \<open>REVIEW_SELECTORS =
     [''p.sc-1hez2tp-0.sc-hfLElm.hreYiP'',
      ''p.sc-1hez2tp-0.hreYiP'',
      ''p.hreYiP'',
      ''div.sc-dgAbBl.ceFzZe p'',
      ''section.sc-jOnSTu.cfrSOJ p'',
      ''div[data-testid="review-text"]'',
      ''div.reviews-text'',
      ''p.review-text'',
      ''div.review-content p'',
      ''[class*="review"] p'',
      ''div[class*="review-text"]'',
      ''p[class*="review"]'']\<close>

definition MIN_REVIEW_LENGTH :: int where
  "MIN_REVIEW_LENGTH = 20"

section \<open>Exceptions and Python values\<close>

datatype exn =
  Timeout | RequestException | JSONDecodeError | OSError | TypeError | AttributeError
  | KeyError | Exception

text \<open>The values \<open>json.load\<close> returns. A dictionary is an association list read with
  \<open>map_of\<close>. Numbers are integers; a float behaves like an integer in every operation
  below.\<close>

datatype json =
  JNull | JBool bool | JNum int | JStr string | JList "json list" | JObj "(string \<times> json) list"

text \<open>\<open>len(x)\<close>.\<close>

fun py_len :: "json \<Rightarrow> exn + nat" where
  "py_len (JList xs) = Inr (length xs)"
| "py_len (JStr s) = Inr (length s)"
| "py_len (JObj kvs) = Inr (length kvs)"
| "py_len v = Inl TypeError"

text \<open>\<open>x[-1] if x else None\<close>.\<close>

fun last_or_None :: "json \<Rightarrow> exn + json" where
  "last_or_None (JList xs) = Inr (if xs = [] then JNull else last xs)"
| "last_or_None (JStr s) = Inr (if s = [] then JNull else JStr [last s])"
| "last_or_None (JObj kvs) = (if kvs = [] then Inr JNull else Inl KeyError)"
| "last_or_None (JNum n) = (if n = 0 then Inr JNull else Inl TypeError)"
| "last_or_None (JBool b) = (if b then Inl TypeError else Inr JNull)"
| "last_or_None JNull = Inr JNull"

text \<open>\<open>res_url in x\<close> for a string \<open>res_url\<close>.\<close>

fun py_contains :: "json \<Rightarrow> string \<Rightarrow> exn + bool" where
  "py_contains (JList xs) u = Inr (JStr u \<in> set xs)"
| "py_contains (JStr s) u = Inr (sublist u s)"
| "py_contains (JObj kvs) u = Inr (u \<in> fst ` set kvs)"
| "py_contains v u = Inl TypeError"

text \<open>\<open>x.append(res_url)\<close>.\<close>

fun py_append :: "json \<Rightarrow> string \<Rightarrow> exn + json" where
  "py_append (JList xs) u = Inr (JList (xs @ [JStr u]))"
| "py_append v u = Inl AttributeError"

section \<open>The outside world\<close>

text \<open>A parsed document is what \<open>soup.select\<close> returns for each selector; an element is
  the list of its text nodes in document order.\<close>

type_synonym block = "string list"
type_synonym soup = "string \<Rightarrow> exn + block list"

record response =
  status_code :: int
  resp_text :: string

text \<open>\<open>session_get w n url\<close> is the outcome of the call \<open>session.get(url)\<close> when \<open>n\<close> calls
  were made before it, \<open>now_isoformat w n\<close> the \<open>n\<close>-th reading of the clock, and
  \<open>can_write w path\<close> says whether opening \<open>path\<close> for writing succeeds.\<close>

record world =
  session_get :: "nat \<Rightarrow> string \<Rightarrow> exn + response"
  BeautifulSoup :: "string \<Rightarrow> exn + soup"
  now_isoformat :: "nat \<Rightarrow> string"
  can_write :: "string \<Rightarrow> bool"

text \<open>A file holds a JSON document, a CSV export, or anything else (\<open>Garbage\<close>: content
  that cannot be read or decoded).\<close>

datatype file_content = JsonFile json | CsvFile "review_rec list" | Garbage

record io =
  requests :: nat
  clock_reads :: nat
  files :: "string \<rightharpoonup> file_content"

section \<open>CheckpointManager (utils.py)\<close>

record CheckpointManager =
  checkpoint_file :: string

definition save_checkpoint ::
  "world \<Rightarrow> CheckpointManager \<Rightarrow> json \<Rightarrow> review_rec list \<Rightarrow> io \<Rightarrow> io \<times> (exn + unit)" where
  "save_checkpoint w cm processed all_revs s =
     (let timestamp = now_isoformat w (clock_reads s);
          s1 = s\<lparr>clock_reads := Suc (clock_reads s)\<rparr>
      in (case last_or_None processed of
            Inl e \<Rightarrow> (s1, Inl e)
          | Inr last_processed \<Rightarrow>
              (let checkpoint = JObj [(''processed_urls'', processed),
                                      (''total_reviews'', JNum (int (length all_revs))),
                                      (''timestamp'', JStr timestamp),
                                      (''last_processed'', last_processed)];
                   s2 = s1\<lparr>files := (files s1)(checkpoint_file cm \<mapsto> JsonFile checkpoint)\<rparr>
               in (if \<not> can_write w (checkpoint_file cm) then (s1, Inl OSError)
                   else (case py_len processed of
                           Inl e \<Rightarrow> (s2, Inl e)
                         | Inr n \<Rightarrow> (s2, Inr ()))))))"

text \<open>The body of the \<open>try\<close> in \<open>load_checkpoint\<close>; the log line evaluates
  \<open>len(processed_urls)\<close>.\<close>

definition load_body :: "file_content \<Rightarrow> exn + json" where
  "load_body f =
     (case f of
        JsonFile checkpoint \<Rightarrow>
          (case checkpoint of
             JObj kvs \<Rightarrow>
               (let processed = (case map_of kvs ''processed_urls'' of
                                   None \<Rightarrow> JList [] | Some v \<Rightarrow> v)
                in case py_len processed of
                     Inl e \<Rightarrow> Inl e
                   | Inr n \<Rightarrow> Inr processed)
           | _ \<Rightarrow> Inl AttributeError)
      | _ \<Rightarrow> Inl JSONDecodeError)"

definition load_checkpoint :: "CheckpointManager \<Rightarrow> io \<Rightarrow> exn + json" where
  "load_checkpoint cm s =
     (case files s (checkpoint_file cm) of
        None \<Rightarrow> Inr (JList [])
      | Some f \<Rightarrow>
          (case load_body f of
             Inl e \<Rightarrow> Inr (JList [])
           | Inr processed \<Rightarrow> Inr processed))"

section \<open>ZomatoReviewScraper (enhanced_scraper.py)\<close>

definition get_review_url :: "string \<Rightarrow> string" where
  "get_review_url res_url =
     (if res_url \<noteq> [] \<and> last res_url = CHR ''/'' then butlast res_url else res_url)
     @ ''/reviews''"

text \<open>\<open>block.get_text(strip=True)\<close>: every text node stripped, the empty ones left out,
  the rest concatenated.\<close>

definition get_text_strip :: "block \<Rightarrow> string" where
  "get_text_strip b = concat (map strip b)"

text \<open>The inner loop of \<open>_extract_reviews\<close> over the matched blocks.\<close>

definition block_texts :: "block list \<Rightarrow> string list" where
  "block_texts review_blocks =
     filter (\<lambda>t. t \<noteq> [] \<and> int (length t) > MIN_REVIEW_LENGTH)
       (map get_text_strip review_blocks)"

text \<open>The loop over the selectors. The second component lists the selectors that
  \<open>soup.select\<close> was called with, in order. An element is a list of text nodes, so
  reading its text cannot fail: \<open>soup.select\<close> is the only call of the \<open>try\<close> that can
  raise.\<close>

fun extract_loop :: "soup \<Rightarrow> string list \<Rightarrow> string list \<times> string list" where
  "extract_loop soup [] = ([], [])"
| "extract_loop soup (selector # selectors) =
     (case soup selector of
        Inl e \<Rightarrow> (let (revs, tried) = extract_loop soup selectors in (revs, selector # tried))
      | Inr review_blocks \<Rightarrow>
          (if review_blocks \<noteq> [] then (block_texts review_blocks, [selector])
           else (let (revs, tried) = extract_loop soup selectors
                 in (revs, selector # tried))))"

definition extract_reviews :: "soup \<Rightarrow> string list" where
  "extract_reviews soup = fst (extract_loop soup REVIEW_SELECTORS)"

text \<open>\<open>str(n)\<close> for the page number in the URL.\<close>

fun str_nat :: "nat \<Rightarrow> string" where
  "str_nat n =
     (if n < 10 then [char_of (48 + n)]
      else str_nat (n div 10) @ [char_of (48 + n mod 10)])"

declare str_nat.simps [simp del]

datatype flow = Next | Break

text \<open>The body of the inner \<open>try\<close> of \<open>_scrape_restaurant_reviews\<close> for one page. The
  state is the outside world and \<open>restaurant_reviews\<close>. The politeness delay has no
  effect on the result and is left out.\<close>

definition page_body ::
  "world \<Rightarrow> string \<Rightarrow> string \<Rightarrow> nat \<Rightarrow> io \<times> review_rec list
     \<Rightarrow> (io \<times> review_rec list) \<times> (exn + flow)" where
  "page_body w res_url full_url page_no st =
     (let s = fst st; restaurant_reviews = snd st;
          s1 = s\<lparr>requests := Suc (requests s)\<rparr>
      in (case session_get w (requests s) full_url of
            Inl e \<Rightarrow> ((s1, restaurant_reviews), Inl e)
          | Inr resp \<Rightarrow>
              (if status_code resp \<noteq> 200 then ((s1, restaurant_reviews), Inr Break)
               else (case BeautifulSoup w (resp_text resp) of
                       Inl e \<Rightarrow> ((s1, restaurant_reviews), Inl e)
                     | Inr soup \<Rightarrow>
                         (let page_reviews = extract_reviews soup
                          in (if page_reviews = [] then ((s1, restaurant_reviews), Inr Break)
                              else ((s1\<lparr>clock_reads := clock_reads s1 + length page_reviews\<rparr>,
                                     restaurant_reviews @
                                     map (\<lambda>(k, review_text).
                                            \<lparr>restaurant_url = res_url, page = page_no,
                                             review = Some review_text,
                                             scraped_at = now_isoformat w (clock_reads s1 + k)\<rparr>)
                                       (enumerate 0 page_reviews)),
                                    Inr Next)))))))"

text \<open>The inner \<open>try\<close> with its three handlers, each of which leaves the loop.\<close>

definition page_try ::
  "world \<Rightarrow> string \<Rightarrow> string \<Rightarrow> nat \<Rightarrow> io \<times> review_rec list
     \<Rightarrow> (io \<times> review_rec list) \<times> (exn + flow)" where
  "page_try w res_url full_url page_no st =
     (case page_body w res_url full_url page_no st of
        (st', Inl Timeout) \<Rightarrow> (st', Inr Break)
      | (st', Inl RequestException) \<Rightarrow> (st', Inr Break)
      | (st', Inl e) \<Rightarrow> (st', Inr Break)
      | (st', Inr f) \<Rightarrow> (st', Inr f))"

fun for_pages ::
  "world \<Rightarrow> string \<Rightarrow> string \<Rightarrow> nat list \<Rightarrow> io \<times> review_rec list
     \<Rightarrow> (io \<times> review_rec list) \<times> (exn + unit)" where
  "for_pages w res_url review_url [] st = (st, Inr ())"
| "for_pages w res_url review_url (page_no # pages) st =
     (case page_try w res_url (review_url @ ''?page='' @ str_nat page_no) page_no st of
        (st', Inl e) \<Rightarrow> (st', Inl e)
      | (st', Inr Break) \<Rightarrow> (st', Inr ())
      | (st', Inr Next) \<Rightarrow> for_pages w res_url review_url pages st')"

text \<open>The outer \<open>try\<close> logs and falls through to the \<open>return\<close>.\<close>

definition scrape_restaurant_reviews ::
  "world \<Rightarrow> string \<Rightarrow> io \<Rightarrow> io \<times> (exn + review_rec list)" where
  "scrape_restaurant_reviews w res_url s =
     (let review_url = get_review_url res_url
      in (case for_pages w res_url review_url [1..<MAX_PAGES + 1] (s, []) of
            ((s', restaurant_reviews), Inl e) \<Rightarrow> (s', Inr restaurant_reviews)
          | ((s', restaurant_reviews), Inr u) \<Rightarrow> (s', Inr restaurant_reviews)))"

record run_state =
  outside :: io
  all_reviews :: "review_rec list"
  processed_urls :: json

definition scraper_checkpoint_manager :: CheckpointManager where
  "scraper_checkpoint_manager = \<lparr>checkpoint_file = CHECKPOINT_FILE\<rparr>"

text \<open>The periodic save at the end of an iteration: the checkpoint, then the
  intermediate export of all reviews collected so far.\<close>

definition periodic_save :: "world \<Rightarrow> nat \<Rightarrow> run_state \<Rightarrow> run_state \<times> (exn + unit)" where
  "periodic_save w i st =
     (if (i + 1) mod CHUNK_SIZE = 0
      then (case save_checkpoint w scraper_checkpoint_manager
                   (processed_urls st) (all_reviews st) (outside st) of
              (s1, Inl e) \<Rightarrow> (st\<lparr>outside := s1\<rparr>, Inl e)
            | (s1, Inr u) \<Rightarrow>
                (let temp_file = ''temp_'' @ OUTPUT_FILE
                 in (if all_reviews st \<noteq> []
                     then (if can_write w temp_file
                           then (st\<lparr>outside := s1\<lparr>files :=
                                    (files s1)(temp_file \<mapsto> CsvFile (all_reviews st))\<rparr>\<rparr>,
                                 Inr ())
                           else (st\<lparr>outside := s1\<rparr>, Inl OSError))
                     else (st\<lparr>outside := s1\<rparr>, Inr ()))))
      else (st, Inr ()))"

text \<open>One iteration of the loop of \<open>scrape_all_reviews\<close>, for the pair \<open>(i, res_url)\<close> of
  \<open>enumerate(urls)\<close>. Nothing here is inside a \<open>try\<close>: an exception leaves the loop and
  the function.\<close>

definition url_step :: "world \<Rightarrow> nat \<times> string \<Rightarrow> run_state \<Rightarrow> run_state \<times> (exn + unit)" where
  "url_step w ix st =
     (let i = fst ix; res_url = snd ix
      in (case py_contains (processed_urls st) res_url of
            Inl e \<Rightarrow> (st, Inl e)
          | Inr True \<Rightarrow> (st, Inr ())
          | Inr False \<Rightarrow>
              (case scrape_restaurant_reviews w res_url (outside st) of
                 (s1, Inl e) \<Rightarrow> (st\<lparr>outside := s1\<rparr>, Inl e)
               | (s1, Inr restaurant_reviews) \<Rightarrow>
                   (let st1 = st\<lparr>outside := s1,
                                  all_reviews := all_reviews st @ restaurant_reviews\<rparr>
                    in (case py_append (processed_urls st1) res_url of
                          Inl e \<Rightarrow> (st1, Inl e)
                        | Inr p \<Rightarrow> periodic_save w i (st1\<lparr>processed_urls := p\<rparr>))))))"

fun urls_loop :: "world \<Rightarrow> (nat \<times> string) list \<Rightarrow> run_state \<Rightarrow> run_state \<times> (exn + unit)" where
  "urls_loop w [] st = (st, Inr ())"
| "urls_loop w (ix # rest) st =
     (case url_step w ix st of
        (st', Inl e) \<Rightarrow> (st', Inl e)
      | (st', Inr u) \<Rightarrow> urls_loop w rest st')"

definition scrape_all_reviews ::
  "world \<Rightarrow> string list \<Rightarrow> io \<Rightarrow> run_state \<times> (exn + review_rec list)" where
  "scrape_all_reviews w urls s =
     (case load_checkpoint scraper_checkpoint_manager s of
        Inl e \<Rightarrow> (\<lparr>outside = s, all_reviews = [], processed_urls = JList []\<rparr>, Inl e)
      | Inr processed \<Rightarrow>
          (case urls_loop w (enumerate 0 urls)
                  \<lparr>outside = s, all_reviews = [], processed_urls = processed\<rparr> of
             (st, Inl e) \<Rightarrow> (st, Inl e)
           | (st, Inr u) \<Rightarrow>
               (case save_checkpoint w scraper_checkpoint_manager
                       (processed_urls st) (all_reviews st) (outside st) of
                  (s', Inl e) \<Rightarrow> (st\<lparr>outside := s'\<rparr>, Inl e)
                | (s', Inr u') \<Rightarrow> (st\<lparr>outside := s'\<rparr>, Inr (all_reviews st)))))"

section \<open>Notions used in the statements\<close>

text \<open>What page \<open>page_no\<close> of \<open>review_url\<close> yields when it is fetched as call number \<open>n\<close> of
  \<open>session.get\<close>: the extracted texts if the response has status 200 and its body parses,
  \<open>None\<close> otherwise.\<close>

definition page_texts :: "world \<Rightarrow> string \<Rightarrow> nat \<Rightarrow> nat \<Rightarrow> string list option" where
  "page_texts w review_url n page_no =
     (case session_get w n (review_url @ ''?page='' @ str_nat page_no) of
        Inl e \<Rightarrow> None
      | Inr resp \<Rightarrow>
          (if status_code resp \<noteq> 200 then None
           else (case BeautifulSoup w (resp_text resp) of
                   Inl e \<Rightarrow> None
                 | Inr soup \<Rightarrow> Some (extract_reviews soup))))"

text \<open>A processed collection with \<open>ys\<close> appended at its end; a value that is not a list
  cannot be appended to and stays as it is.\<close>

definition grown :: "json \<Rightarrow> json list \<Rightarrow> json" where
  "grown p ys = (case p of JList xs \<Rightarrow> JList (xs @ ys) | _ \<Rightarrow> p)"

text \<open>A world in which every request times out and every file can be written, and one in
  which the first request is answered with a page holding one review and every later
  request times out.\<close>

definition timeout_world :: world where
  "timeout_world =
     \<lparr>session_get = (\<lambda>n url. Inl Timeout), BeautifulSoup = (\<lambda>t. Inl Exception),
      now_isoformat = (\<lambda>n. ''2024-01-01T00:00:00''), can_write = (\<lambda>p. True)\<rparr>"

definition one_page_world :: world where
  "one_page_world =
     \<lparr>session_get = (\<lambda>n url. if n = 0 then Inr \<lparr>status_code = 200, resp_text = ''page''\<rparr>
                               else Inl Timeout),
      BeautifulSoup = (\<lambda>t. Inr (\<lambda>selector.
         if selector = ''p.hreYiP'' then Inr [[''  The food here was great and cheap  '']]
         else Inr [])),
      now_isoformat = (\<lambda>n. ''2024-01-01T00:00:00''), can_write = (\<lambda>p. True)\<rparr>"

text \<open>A world in which the first request is answered with a page holding one review and
  every later request with status 404.\<close>

definition not_found_world :: world where
  "not_found_world =
     \<lparr>session_get = (\<lambda>n url. Inr \<lparr>status_code = (if n = 0 then 200 else 404),
                                    resp_text = ''page''\<rparr>),
      BeautifulSoup = (\<lambda>t. Inr (\<lambda>selector.
         if selector = ''p.hreYiP'' then Inr [[''  The food here was great and cheap  '']]
         else Inr [])),
      now_isoformat = (\<lambda>n. ''2024-01-01T00:00:00''), can_write = (\<lambda>p. True)\<rparr>"

text \<open>A world in which every request is answered with status 200: the first with a page
  holding one review, every later one with a page holding none.\<close>

definition short_listing_world :: world where
  "short_listing_world =
     \<lparr>session_get = (\<lambda>n url. Inr \<lparr>status_code = 200,
                                    resp_text = (if n = 0 then ''first'' else ''empty'')\<rparr>),
      BeautifulSoup = (\<lambda>t. Inr (\<lambda>selector.
         if t = ''first'' \<and> selector = ''p.hreYiP''
         then Inr [[''  The food here was great and cheap  '']]
         else Inr [])),
      now_isoformat = (\<lambda>n. ''2024-01-01T00:00:00''), can_write = (\<lambda>p. True)\<rparr>"

definition no_files :: io where
  "no_files = \<lparr>requests = 0, clock_reads = 0, files = Map.empty\<rparr>"

text \<open>A state whose checkpoint file holds \<open>{"processed_urls": "abc"}\<close>.\<close>

definition string_checkpoint :: io where
  "string_checkpoint =
     \<lparr>requests = 0, clock_reads = 0,
      files = [CHECKPOINT_FILE \<mapsto> JsonFile (JObj [(''processed_urls'', JStr ''abc'')])]\<rparr>"

text \<open>The store in which address \<open>a\<close> holds the \<open>a\<close>-th dictionary of a list (and a
  dictionary without text beyond the list), and dictionaries for the examples.\<close>

definition store_of :: "review_rec list \<Rightarrow> store" where
  "store_of rs a =
     (if a < length rs then rs ! a
      else \<lparr>restaurant_url = [], page = 0, review = None, scraped_at = []\<rparr>)"

definition rec_of :: "string option \<Rightarrow> review_rec" where
  "rec_of t = \<lparr>restaurant_url = ''https://z.example/r/'', page = 1, review = t,
              scraped_at = ''2024-01-01T00:00:00''\<rparr>"

definition rated_store :: store where
  "rated_store =
     store_of [rec_of (Some ''Rated Rated Rated Rated 5''),
               rec_of (Some ''Rated  Rated Rated Rated 5'')]"

definition mixed_store :: store where
  "mixed_store =
     store_of [rec_of (Some ''  Rated Great food and service here  ''),
               rec_of (Some ''too short''),
               rec_of (Some ''Rated Great food and service here''),
               rec_of (Some ''12345678901234567890123''),
               rec_of (Some ''Another fine review of this place''),
               rec_of (Some ''   ''),
               rec_of None]"

text \<open>A world in which every request times out and no file can be written, and a list of
  eleven identifiers.\<close>

definition readonly_world :: world where
  "readonly_world =
     \<lparr>session_get = (\<lambda>n url. Inl Timeout), BeautifulSoup = (\<lambda>t. Inl Exception),
      now_isoformat = (\<lambda>n. ''2024-01-01T00:00:00''), can_write = (\<lambda>p. False)\<rparr>"

definition eleven_urls :: "string list" where
  "eleven_urls = map (\<lambda>n. ''https://z.example/r'' @ str_nat n) [0..<11]"

section \<open>Facts about the string operations\<close>

declare replace.simps [simp del]

lemma replace_Nil: "old \<noteq> [] \<Longrightarrow> replace old new [] = []"
  by (simp add: replace.simps)

lemma replace_Cons_prefix:
  "old \<noteq> [] \<Longrightarrow> prefix old (c # cs) \<Longrightarrow>
   replace old new (c # cs) = new @ replace old new (drop (length old) (c # cs))"
  by (simp add: replace.simps)

lemma replace_Cons_noprefix:
  "old \<noteq> [] \<Longrightarrow> \<not> prefix old (c # cs) \<Longrightarrow> replace old new (c # cs) = c # replace old new cs"
  by (simp add: replace.simps)

lemma replace_last:
  assumes "old \<noteq> []" and "isspace (last old)" and "s \<noteq> []" and "\<not> isspace (last s)"
  shows "replace old new s \<noteq> [] \<and> last (replace old new s) = last s"
  using assms
proof (induction old new s rule: replace.induct)
  case (1 old new)
  then show ?case by simp
next
  case (2 old new c cs)
  show ?case
  proof (cases "prefix old (c # cs)")
    case True
    then obtain rest where r: "c # cs = old @ rest" by (auto simp: prefix_def)
    have ne: "rest \<noteq> []"
    proof
      assume "rest = []"
      then have "c # cs = old" using r by simp
      then show False using "2.prems" by simp
    qed
    have d: "drop (length old) (c # cs) = rest" using r by simp
    have l: "last rest = last (c # cs)" using r ne by simp
    have "replace old new rest \<noteq> [] \<and> last (replace old new rest) = last rest"
      using "2.IH"(2)[OF "2.prems"(1) True] "2.prems" ne l d by simp
    then show ?thesis
      using replace_Cons_prefix[OF "2.prems"(1) True, of new] d l by simp
  next
    case False
    note np = replace_Cons_noprefix[OF "2.prems"(1) False, of new]
    show ?thesis
    proof (cases cs)
      case Nil
      then show ?thesis using np "2.prems" by (simp add: replace_Nil)
    next
      case (Cons d ds)
      then have "replace old new cs \<noteq> [] \<and> last (replace old new cs) = last cs"
        using "2.IH"(3)[OF "2.prems"(1) False] "2.prems" by simp
      then show ?thesis using np Cons by simp
    qed
  qed
qed


lemma concat_split_from: "concat (split_from w s) = w @ filter (\<lambda>c. \<not> isspace c) s"
  by (induction s arbitrary: w) simp_all

lemma split_from_nonempty: "[] \<notin> set (split_from w s)"
  by (induction s arbitrary: w) simp_all

lemma split_from_nospace:
  "\<forall>c\<in>set w. \<not> isspace c \<Longrightarrow> \<forall>x\<in>set (split_from w s). \<forall>c\<in>set x. \<not> isspace c"
proof (induction s arbitrary: w)
  case Nil
  then show ?case by simp
next
  case (Cons a s)
  have e: "\<forall>x\<in>set (split_from [] s). \<forall>c\<in>set x. \<not> isspace c"
    using Cons.IH[of "[]"] by simp
  show ?case
  proof (cases "isspace a")
    case True
    then show ?thesis using e Cons.prems by simp
  next
    case False
    then have "\<forall>c\<in>set (w @ [a]). \<not> isspace c" using Cons.prems by simp
    then have "\<forall>x\<in>set (split_from (w @ [a]) s). \<forall>c\<in>set x. \<not> isspace c"
      by (rule Cons.IH)
    then show ?thesis using False by simp
  qed
qed

lemma join_last:
  "xs \<noteq> [] \<Longrightarrow> last xs \<noteq> [] \<Longrightarrow> join sep xs \<noteq> [] \<and> last (join sep xs) = last (last xs)"
  by (induction sep xs rule: join.induct) simp_all

lemma join_split_last:
  assumes "\<exists>c\<in>set s. \<not> isspace c"
  shows "join sep (split s) \<noteq> [] \<and> \<not> isspace (last (join sep (split s)))"
proof -
  have "filter (\<lambda>c. \<not> isspace c) s \<noteq> []"
    using assms by (simp add: filter_empty_conv)
  then have "concat (split s) \<noteq> []"
    by (simp add: split_def concat_split_from)
  then have ne: "split s \<noteq> []" by auto
  then have mem: "last (split s) \<in> set (split s)" by simp
  have l: "last (split s) \<noteq> []"
    using mem split_from_nonempty[of "[]" s] unfolding split_def by metis
  have "\<forall>x\<in>set (split s). \<forall>c\<in>set x. \<not> isspace c"
    unfolding split_def by (rule split_from_nospace) simp
  then have "\<forall>c\<in>set (last (split s)). \<not> isspace c" using mem by blast
  then have "\<not> isspace (last (last (split s)))" using l last_in_set by blast
  then show ?thesis using join_last[OF ne l, of sep] by simp
qed

lemma strip_nonempty: "(strip s \<noteq> []) = (\<exists>c\<in>set s. \<not> isspace c)"
proof -
  have 1: "(strip s \<noteq> []) = (dropWhile isspace (rev (dropWhile isspace s)) \<noteq> [])"
    by (simp add: strip_def)
  have 2: "(dropWhile isspace (rev (dropWhile isspace s)) \<noteq> [])
           = (\<exists>c\<in>set (dropWhile isspace s). \<not> isspace c)"
    by (simp add: dropWhile_eq_Nil_conv)
  have 3: "(\<exists>c\<in>set (dropWhile isspace s). \<not> isspace c) = (dropWhile isspace s \<noteq> [])"
  proof
    assume "\<exists>c\<in>set (dropWhile isspace s). \<not> isspace c"
    then show "dropWhile isspace s \<noteq> []" by (auto dest: set_dropWhileD)
  next
    assume a: "dropWhile isspace s \<noteq> []"
    then have "\<not> isspace (hd (dropWhile isspace s))" by (rule hd_dropWhile)
    moreover have "hd (dropWhile isspace s) \<in> set (dropWhile isspace s)" using a by simp
    ultimately show "\<exists>c\<in>set (dropWhile isspace s). \<not> isspace c" by blast
  qed
  have 4: "(dropWhile isspace s \<noteq> []) = (\<exists>c\<in>set s. \<not> isspace c)"
    by (simp add: dropWhile_eq_Nil_conv)
  show ?thesis using 1 2 3 4 by simp
qed


lemma last_nonblank: "s \<noteq> [] \<Longrightarrow> \<not> isspace (last s) \<Longrightarrow> \<exists>c\<in>set s. \<not> isspace c"
  using last_in_set by blast

lemma strip_last: "strip s \<noteq> [] \<Longrightarrow> \<not> isspace (last (strip s))"
proof -
  assume a: "strip s \<noteq> []"
  let ?d = "dropWhile isspace (rev (dropWhile isspace s))"
  have ne: "?d \<noteq> []" using a unfolding strip_def by simp
  have "last (strip s) = hd ?d" using ne unfolding strip_def by (simp add: last_rev)
  moreover have "\<not> isspace (hd ?d)" using ne by (rule hd_dropWhile)
  ultimately show ?thesis by simp
qed

lemma strip_strip_nonempty:
  assumes "strip s \<noteq> []"
  shows "strip (strip s) \<noteq> []"
proof -
  have "\<not> isspace (last (strip s))" using assms by (rule strip_last)
  with assms have "\<exists>c\<in>set (strip s). \<not> isspace c" by (rule last_nonblank)
  then show ?thesis by (simp only: strip_nonempty)
qed


lemma fold_replace_last:
  assumes "\<forall>p\<in>set ps. p \<noteq> [] \<and> isspace (last p)" and "s \<noteq> []" and "\<not> isspace (last s)"
  shows "fold (\<lambda>p t. replace p new t) ps s \<noteq> []
         \<and> last (fold (\<lambda>p t. replace p new t) ps s) = last s"
  using assms
proof (induction ps arbitrary: s)
  case Nil
  then show ?case by simp
next
  case (Cons p ps)
  have p: "p \<noteq> []" "isspace (last p)" using Cons.prems(1) by simp_all
  have r: "replace p new s \<noteq> [] \<and> last (replace p new s) = last s"
    using p Cons.prems(2,3) by (rule replace_last)
  have ps: "\<forall>p\<in>set ps. p \<noteq> [] \<and> isspace (last p)" using Cons.prems(1) by simp
  have "fold (\<lambda>p t. replace p new t) ps (replace p new s) \<noteq> []
        \<and> last (fold (\<lambda>p t. replace p new t) ps (replace p new s)) = last (replace p new s)"
    using ps r Cons.prems(3) by (intro Cons.IH) simp_all
  then show ?case using r by simp
qed

lemma patterns_end_in_space: "\<forall>p\<in>set patterns_to_remove. p \<noteq> [] \<and> isspace (last p)"
  by (simp add: patterns_to_remove_def isspace_def)

lemma clean_review_text_eq:
  "t \<noteq> [] \<Longrightarrow> clean_review_text t =
     strip (join '' '' (split (fold (\<lambda>pattern t. replace pattern '' '' t) patterns_to_remove
       (join '' '' (split t)))))"
  unfolding clean_review_text_def Let_def by (rule if_not_P)

lemma clean_review_text_nonblank:
  assumes "\<exists>c\<in>set t. \<not> isspace c"
  shows "strip (clean_review_text t) \<noteq> []"
proof -
  define t1 where "t1 = join '' '' (split t)"
  define t2 where "t2 = fold (\<lambda>pattern t. replace pattern '' '' t) patterns_to_remove t1"
  define t3 where "t3 = join '' '' (split t2)"
  have t: "t \<noteq> []" using assms by auto
  have 1: "t1 \<noteq> [] \<and> \<not> isspace (last t1)"
    unfolding t1_def using assms by (rule join_split_last)
  have t1a: "t1 \<noteq> []" and t1b: "\<not> isspace (last t1)" using 1 by simp_all
  have 2: "t2 \<noteq> [] \<and> last t2 = last t1"
    unfolding t2_def by (rule fold_replace_last[OF patterns_end_in_space t1a t1b])
  have t2a: "t2 \<noteq> []" using 2 by simp
  have t2b: "\<not> isspace (last t2)" using 2 t1b by simp
  have "\<exists>c\<in>set t2. \<not> isspace c" using t2a t2b by (rule last_nonblank)
  then have 3: "t3 \<noteq> [] \<and> \<not> isspace (last t3)" unfolding t3_def by (rule join_split_last)
  have "\<exists>c\<in>set t3. \<not> isspace c" using 3 by (intro last_nonblank) simp_all
  then have "strip t3 \<noteq> []" by (simp only: strip_nonempty)
  then have 4: "strip (strip t3) \<noteq> []" by (rule strip_strip_nonempty)
  have "clean_review_text t = strip t3"
    unfolding t3_def t2_def t1_def using t by (rule clean_review_text_eq)
  then show ?thesis using 4 by simp
qed

section \<open>Facts about validation and deduplication\<close>

lemma dedup_loop_skip:
  assumes "strip (get_review (h r)) = [] \<or> strip (get_review (h r)) \<in> seen"
  shows "dedup_loop seen (r # rs) h = dedup_loop seen rs h"
  using assms by (auto simp: Let_def)

lemma dedup_loop_keep:
  assumes "strip (get_review (h r)) \<noteq> []" and "strip (get_review (h r)) \<notin> seen"
  shows "dedup_loop seen (r # rs) h
     = (r # fst (dedup_loop (insert (strip (get_review (h r))) seen) rs
                  (h(r := (h r)\<lparr>review := Some (clean_review_text (strip (get_review (h r))))\<rparr>))),
        snd (dedup_loop (insert (strip (get_review (h r))) seen) rs
                  (h(r := (h r)\<lparr>review := Some (clean_review_text (strip (get_review (h r))))\<rparr>))))"
  using assms by (simp add: Let_def case_prod_unfold)

declare dedup_loop.simps(2) [simp del]

lemma cleaned_nonblank:
  assumes "strip (get_review x) \<noteq> []"
  shows "strip (get_review (x\<lparr>review := Some (clean_review_text (strip (get_review x)))\<rparr>)) \<noteq> []"
proof -
  let ?t = "strip (get_review x)"
  have "strip ?t \<noteq> []" using assms by (simp add: strip_strip_nonempty)
  then have "\<exists>c\<in>set ?t. \<not> isspace c" by (simp only: strip_nonempty)
  then have "strip (clean_review_text ?t) \<noteq> []" by (rule clean_review_text_nonblank)
  then show ?thesis by (simp add: get_review_def)
qed

lemma dedup_loop_stays_nonblank:
  "strip (get_review (h b)) \<noteq> []
   \<Longrightarrow> strip (get_review (snd (dedup_loop seen rs h) b)) \<noteq> []"
proof (induction rs arbitrary: seen h)
  case Nil
  then show ?case by simp
next
  case (Cons r rs)
  let ?t = "strip (get_review (h r))"
  let ?h1 = "h(r := (h r)\<lparr>review := Some (clean_review_text ?t)\<rparr>)"
  show ?case
  proof (cases "?t \<noteq> [] \<and> ?t \<notin> seen")
    case True
    have "strip (get_review (?h1 b)) \<noteq> []"
      using Cons.prems True cleaned_nonblank[of "h r"] by simp
    then have "strip (get_review (snd (dedup_loop (insert ?t seen) rs ?h1) b)) \<noteq> []"
      by (rule Cons.IH)
    moreover have "dedup_loop seen (r # rs) h
        = (r # fst (dedup_loop (insert ?t seen) rs ?h1), snd (dedup_loop (insert ?t seen) rs ?h1))"
      using True dedup_loop_keep[of h r seen rs] by blast
    ultimately show ?thesis by simp
  next
    case False
    then have "dedup_loop seen (r # rs) h = dedup_loop seen rs h"
      by (intro dedup_loop_skip) blast
    moreover have "strip (get_review (snd (dedup_loop seen rs h) b)) \<noteq> []"
      using Cons.prems by (rule Cons.IH)
    ultimately show ?thesis by simp
  qed
qed

lemma dedup_loop_nonblank:
  "\<forall>a\<in>set (fst (dedup_loop seen rs h)).
     strip (get_review (snd (dedup_loop seen rs h) a)) \<noteq> []"
proof (induction rs arbitrary: seen h)
  case Nil
  then show ?case by simp
next
  case (Cons r rs)
  let ?t = "strip (get_review (h r))"
  let ?h1 = "h(r := (h r)\<lparr>review := Some (clean_review_text ?t)\<rparr>)"
  show ?case
  proof (cases "?t \<noteq> [] \<and> ?t \<notin> seen")
    case True
    let ?D = "dedup_loop (insert ?t seen) rs ?h1"
    have e: "dedup_loop seen (r # rs) h = (r # fst ?D, snd ?D)"
      using True dedup_loop_keep[of h r seen rs] by blast
    have "strip (get_review (?h1 r)) \<noteq> []"
      using True cleaned_nonblank[of "h r"] by simp
    then have hr: "strip (get_review (snd ?D r)) \<noteq> []"
      by (rule dedup_loop_stays_nonblank)
    have ih: "\<forall>a\<in>set (fst ?D). strip (get_review (snd ?D a)) \<noteq> []"
      by (rule Cons.IH)
    show ?thesis unfolding e using hr ih by simp
  next
    case False
    then have "dedup_loop seen (r # rs) h = dedup_loop seen rs h"
      by (intro dedup_loop_skip) blast
    then show ?thesis using Cons.IH[of seen h] by simp
  qed
qed

lemma dedup_loop_filter:
  "dedup_loop seen (filter (\<lambda>a. strip (get_review (h a)) \<noteq> []) rs) h = dedup_loop seen rs h"
proof (induction rs arbitrary: seen h)
  case Nil
  then show ?case by simp
next
  case (Cons r rs)
  let ?t = "strip (get_review (h r))"
  let ?h1 = "h(r := (h r)\<lparr>review := Some (clean_review_text ?t)\<rparr>)"
  show ?case
  proof (cases "?t = []")
    case True
    then have "dedup_loop seen (r # rs) h = dedup_loop seen rs h"
      by (intro dedup_loop_skip) blast
    then show ?thesis using True Cons.IH[of seen h] by simp
  next
    case nb: False
    show ?thesis
    proof (cases "?t \<in> seen")
      case True
      then have "dedup_loop seen (r # rs) h = dedup_loop seen rs h"
        "dedup_loop seen (r # filter (\<lambda>a. strip (get_review (h a)) \<noteq> []) rs) h
         = dedup_loop seen (filter (\<lambda>a. strip (get_review (h a)) \<noteq> []) rs) h"
        by (intro dedup_loop_skip, blast)+
      then show ?thesis using nb Cons.IH[of seen h] by simp
    next
      case False
      have same: "(\<lambda>a. strip (get_review (?h1 a)) \<noteq> []) = (\<lambda>a. strip (get_review (h a)) \<noteq> [])"
      proof
        fix a
        show "(strip (get_review (?h1 a)) \<noteq> []) = (strip (get_review (h a)) \<noteq> [])"
          using nb cleaned_nonblank[of "h r"] by simp
      qed
      have "dedup_loop (insert ?t seen) (filter (\<lambda>a. strip (get_review (?h1 a)) \<noteq> []) rs) ?h1
          = dedup_loop (insert ?t seen) rs ?h1"
        by (rule Cons.IH)
      then have "dedup_loop (insert ?t seen) (filter (\<lambda>a. strip (get_review (h a)) \<noteq> []) rs) ?h1
          = dedup_loop (insert ?t seen) rs ?h1"
        unfolding same .
      then show ?thesis using nb False by (simp add: dedup_loop_keep)
    qed
  qed
qed

lemma dedup_loop_distinct:
  assumes "distinct rs"
  shows "\<exists>kept h'. dedup_loop seen rs h = (kept, h')
     \<and> subseq kept rs
     \<and> (\<forall>a. h' a = (if a \<in> set kept
                      then (h a)\<lparr>review := Some (clean_review_text (strip (get_review (h a))))\<rparr>
                      else h a))
     \<and> distinct (map (\<lambda>a. strip (get_review (h a))) kept)
     \<and> (\<forall>a\<in>set kept. strip (get_review (h a)) \<notin> seen \<and> strip (get_review (h a)) \<noteq> [])
     \<and> (\<forall>a\<in>set rs. strip (get_review (h a)) \<noteq> [] \<longrightarrow>
           strip (get_review (h a)) \<in> seen \<union> (\<lambda>b. strip (get_review (h b))) ` set kept)"
  using assms
proof (induction rs arbitrary: seen h)
  case Nil
  then show ?case by simp
next
  case (Cons r rs)
  let ?t = "strip (get_review (h r))"
  have d: "distinct rs" and nr: "r \<notin> set rs" using Cons.prems by simp_all
  show ?case
  proof (cases "?t \<noteq> [] \<and> ?t \<notin> seen")
    case True
    define h1 where "h1 = h(r := (h r)\<lparr>review := Some (clean_review_text ?t)\<rparr>)"
    have h1r: "h1 r = (h r)\<lparr>review := Some (clean_review_text ?t)\<rparr>"
      by (simp add: h1_def)
    have h1o: "\<And>a. a \<noteq> r \<Longrightarrow> h1 a = h a" by (simp add: h1_def)
    obtain kept h' where k: "dedup_loop (insert ?t seen) rs h1 = (kept, h')"
      and sub: "subseq kept rs"
      and hp: "\<forall>a. h' a = (if a \<in> set kept
                      then (h1 a)\<lparr>review := Some (clean_review_text (strip (get_review (h1 a))))\<rparr>
                      else h1 a)"
      and dt: "distinct (map (\<lambda>a. strip (get_review (h1 a))) kept)"
      and ns: "\<forall>a\<in>set kept. strip (get_review (h1 a)) \<notin> insert ?t seen
                 \<and> strip (get_review (h1 a)) \<noteq> []"
      and cov: "\<forall>a\<in>set rs. strip (get_review (h1 a)) \<noteq> [] \<longrightarrow>
           strip (get_review (h1 a))
           \<in> insert ?t seen \<union> (\<lambda>b. strip (get_review (h1 b))) ` set kept"
      using Cons.IH[OF d, of "insert ?t seen" h1] by blast
    have ks: "set kept \<subseteq> set rs" using sub by (auto dest: list_emb_set)
    have agree: "\<And>a. a \<in> set rs \<Longrightarrow> h1 a = h a" using nr h1o by metis
    have agree_k: "\<And>a. a \<in> set kept \<Longrightarrow> h1 a = h a" using ks agree by blast
    have rk: "r \<notin> set kept" using ks nr by blast
    have mapeq: "map (\<lambda>a. strip (get_review (h1 a))) kept
        = map (\<lambda>a. strip (get_review (h a))) kept"
      using agree_k by simp
    have imeq: "(\<lambda>a. strip (get_review (h1 a))) ` set kept
        = (\<lambda>a. strip (get_review (h a))) ` set kept"
      using agree_k by simp
    have 1: "dedup_loop seen (r # rs) h = (r # kept, h')"
      using True k dedup_loop_keep[of h r seen rs] unfolding h1_def by simp
    have 2: "subseq (r # kept) (r # rs)" using sub by simp
    have 3: "\<forall>a. h' a = (if a \<in> set (r # kept)
                      then (h a)\<lparr>review := Some (clean_review_text (strip (get_review (h a))))\<rparr>
                      else h a)"
    proof
      fix a
      show "h' a = (if a \<in> set (r # kept)
                      then (h a)\<lparr>review := Some (clean_review_text (strip (get_review (h a))))\<rparr>
                      else h a)"
      proof (cases "a = r")
        case True
        then show ?thesis using hp rk h1r by simp
      next
        case False
        then show ?thesis using hp h1o[OF False] by simp
      qed
    qed
    have ns': "\<forall>a\<in>set kept. strip (get_review (h a)) \<notin> insert ?t seen
                 \<and> strip (get_review (h a)) \<noteq> []"
      using ns agree_k by simp
    have 4: "distinct (map (\<lambda>a. strip (get_review (h a))) (r # kept))"
      using dt ns' unfolding mapeq by auto
    have 5: "\<forall>a\<in>set (r # kept). strip (get_review (h a)) \<notin> seen
                 \<and> strip (get_review (h a)) \<noteq> []"
      using ns' True by simp
    have 6: "\<forall>a\<in>set (r # rs). strip (get_review (h a)) \<noteq> [] \<longrightarrow>
           strip (get_review (h a))
           \<in> seen \<union> (\<lambda>b. strip (get_review (h b))) ` set (r # kept)"
    proof (intro ballI impI)
      fix a assume a: "a \<in> set (r # rs)" and nb: "strip (get_review (h a)) \<noteq> []"
      show "strip (get_review (h a))
           \<in> seen \<union> (\<lambda>b. strip (get_review (h b))) ` set (r # kept)"
      proof (cases "a = r")
        case True
        then show ?thesis by simp
      next
        case False
        then have ar: "a \<in> set rs" using a by simp
        have e: "h1 a = h a" using agree[OF ar] .
        have nb1: "strip (get_review (h1 a)) \<noteq> []" using nb e by simp
        have "strip (get_review (h1 a))
           \<in> insert ?t seen \<union> (\<lambda>b. strip (get_review (h1 b))) ` set kept"
          using cov ar nb1 by blast
        then have "strip (get_review (h a))
           \<in> insert ?t seen \<union> (\<lambda>b. strip (get_review (h b))) ` set kept"
          unfolding imeq e .
        then show ?thesis by auto
      qed
    qed
    show ?thesis using 1 2 3 4 5 6 by blast
  next
    case False
    then have sk: "dedup_loop seen (r # rs) h = dedup_loop seen rs h"
      by (intro dedup_loop_skip) blast
    obtain kept h' where k: "dedup_loop seen rs h = (kept, h')"
      and sub: "subseq kept rs"
      and hp: "\<forall>a. h' a = (if a \<in> set kept
                      then (h a)\<lparr>review := Some (clean_review_text (strip (get_review (h a))))\<rparr>
                      else h a)"
      and dt: "distinct (map (\<lambda>a. strip (get_review (h a))) kept)"
      and ns: "\<forall>a\<in>set kept. strip (get_review (h a)) \<notin> seen \<and> strip (get_review (h a)) \<noteq> []"
      and cov: "\<forall>a\<in>set rs. strip (get_review (h a)) \<noteq> [] \<longrightarrow>
           strip (get_review (h a)) \<in> seen \<union> (\<lambda>b. strip (get_review (h b))) ` set kept"
      using Cons.IH[OF d, of seen h] by blast
    have 1: "dedup_loop seen (r # rs) h = (kept, h')" using sk k by simp
    have 2: "subseq kept (r # rs)" using sub by (rule list_emb_Cons)
    have 6: "\<forall>a\<in>set (r # rs). strip (get_review (h a)) \<noteq> [] \<longrightarrow>
           strip (get_review (h a)) \<in> seen \<union> (\<lambda>b. strip (get_review (h b))) ` set kept"
      using cov False by auto
    show ?thesis using 1 2 hp dt ns 6 by blast
  qed
qed

lemma validate_reviews_subseq: "subseq (validate_reviews rs m h) rs"
  by (induction rs) (simp_all add: Let_def list_emb_Cons)

lemma validate_reviews_distinct:
  "distinct rs \<Longrightarrow> distinct (validate_reviews rs m h)"
proof (induction rs)
  case Nil
  then show ?case by simp
next
  case (Cons r rs)
  have "set (validate_reviews rs m h) \<subseteq> set rs"
    using validate_reviews_subseq[of rs m h] by (auto dest: list_emb_set)
  then show ?case using Cons by (auto simp: Let_def)
qed

lemma validate_reviews_valid:
  "\<forall>a\<in>set (validate_reviews rs m h).
     m \<le> int (length (strip (get_review (h a))))
     \<and> (\<exists>c\<in>set (strip (get_review (h a))). isalpha c)"
  by (induction rs) (simp_all add: Let_def)

text \<open>The same dictionary twice in the list: the second occurrence is read after the
  first has overwritten the text, so both occurrences are kept when cleaning changes the
  text.\<close>

lemma deduplicate_reviews_same_dictionary:
  "fst (deduplicate_reviews [0, 0] (store_of [rec_of (Some ''RatedRated food was good'')]))
     = [0, 0]
   \<and> review (snd (deduplicate_reviews [0, 0]
                    (store_of [rec_of (Some ''RatedRated food was good'')])) 0)
     = Some ''food was good''"
  by code_simp

section \<open>Validation and deduplication\<close>

text \<open>
  Claim C10. \<open>deduplicate_reviews\<close> drops every record whose review text is empty or
  consists of whitespace only after trimming, also when that text occurs once: the
  result, list and store, is the same as for the list without these records. Every record
  of the result has a non-empty trimmed text.
\<close>

theorem deduplicate_reviews_drops_blank:
  "deduplicate_reviews (filter (\<lambda>a. strip (get_review (h a)) \<noteq> []) reviews) h
     = deduplicate_reviews reviews h
   \<and> (\<forall>a\<in>set (fst (deduplicate_reviews reviews h)).
        strip (get_review (snd (deduplicate_reviews reviews h) a)) \<noteq> [])"
  unfolding deduplicate_reviews_def
  using dedup_loop_filter[of "{}" h reviews] dedup_loop_nonblank[of "{}" reviews h] by simp

theorem deduplicate_reviews_drops_blank_witness:
  "deduplicate_reviews [4, 5, 6] mixed_store = deduplicate_reviews [5, 4, 6, 5] mixed_store
   \<and> fst (deduplicate_reviews [5, 4, 6, 5] mixed_store) = [4]
   \<and> [] \<notin> (\<lambda>a. strip (get_review (snd (deduplicate_reviews [5, 4, 6, 5] mixed_store) a)))
            ` set (fst (deduplicate_reviews [5, 4, 6, 5] mixed_store))"
proof -
  let ?rs = "[5, 4, 6, 5] :: ref list"
  have f1: "filter (\<lambda>a. strip (get_review (mixed_store a)) \<noteq> []) ?rs = [4]"
    by code_simp
  have f2: "filter (\<lambda>a. strip (get_review (mixed_store a)) \<noteq> []) [4, 5, 6] = [4]"
    by code_simp
  have k: "fst (deduplicate_reviews ?rs mixed_store) = [4]"
    by code_simp
  have a: "deduplicate_reviews (filter (\<lambda>a. strip (get_review (mixed_store a)) \<noteq> []) ?rs)
             mixed_store = deduplicate_reviews ?rs mixed_store
        \<and> (\<forall>a\<in>set (fst (deduplicate_reviews ?rs mixed_store)).
             strip (get_review (snd (deduplicate_reviews ?rs mixed_store) a)) \<noteq> [])"
    by (rule deduplicate_reviews_drops_blank)
  have b: "deduplicate_reviews
             (filter (\<lambda>a. strip (get_review (mixed_store a)) \<noteq> []) [4, 5, 6]) mixed_store
           = deduplicate_reviews [4, 5, 6] mixed_store"
    using deduplicate_reviews_drops_blank[of mixed_store "[4, 5, 6]"] by (rule conjunct1)
  have "deduplicate_reviews [4, 5, 6] mixed_store = deduplicate_reviews ?rs mixed_store"
    using a b unfolding f1 f2 by simp
  moreover have "[] \<notin> (\<lambda>a. strip (get_review (snd (deduplicate_reviews ?rs mixed_store) a)))
            ` set (fst (deduplicate_reviews ?rs mixed_store))"
    using a by (simp only: image_iff) metis
  ultimately show ?thesis using k by simp
qed

text \<open>
  Claim C2, as stated: the result of \<open>deduplicate_reviews (validate_reviews R min_length)\<close>
  has no two records with the same trimmed text, and every record has a trimmed text of
  length at least \<open>min_length\<close> with an alphabetic character. It fails: both records below
  pass validation with \<open>min_length = 20\<close> and differ before cleaning, and both come out
  with the text \<open>5\<close>.
\<close>

theorem dedup_validate_counterexample:
  "validate_reviews [0, 1] 20 rated_store = [0, 1]
   \<and> fst (deduplicate_reviews (validate_reviews [0, 1] 20 rated_store) rated_store) = [0, 1]
   \<and> map (\<lambda>a. strip (get_review
             (snd (deduplicate_reviews (validate_reviews [0, 1] 20 rated_store) rated_store) a)))
       (fst (deduplicate_reviews (validate_reviews [0, 1] 20 rated_store) rated_store))
     = [''5'', ''5'']"
  by code_simp

text \<open>
  Claim C2, amended. Let \<open>R\<close> be a list of pairwise different dictionaries. The result of
  \<open>deduplicate_reviews (validate_reviews R min_length)\<close> is a subsequence \<open>kept\<close> of \<open>R\<close>.
  In the store, exactly the dictionaries of \<open>kept\<close> have their text replaced by the cleaned
  trimmed text, and every other dictionary is unchanged. The trimmed texts that the
  dictionaries of \<open>kept\<close> had before are pairwise different, each has length at least
  \<open>min_length\<close>, contains an alphabetic character and is not empty, and the trimmed text of
  every dictionary that passes validation is among them. After cleaning, every text of
  the result is still non-empty when trimmed.
\<close>

theorem dedup_validate_amended:
  assumes "distinct R"
  shows "\<exists>kept h'. deduplicate_reviews (validate_reviews R min_length h) h = (kept, h')
     \<and> subseq kept R
     \<and> (\<forall>a. h' a = (if a \<in> set kept
                      then (h a)\<lparr>review := Some (clean_review_text (strip (get_review (h a))))\<rparr>
                      else h a))
     \<and> distinct (map (\<lambda>a. strip (get_review (h a))) kept)
     \<and> (\<forall>a\<in>set kept. min_length \<le> int (length (strip (get_review (h a))))
           \<and> (\<exists>c\<in>set (strip (get_review (h a))). isalpha c)
           \<and> strip (get_review (h a)) \<noteq> [])
     \<and> (\<forall>a\<in>set (validate_reviews R min_length h).
           strip (get_review (h a)) \<in> (\<lambda>b. strip (get_review (h b))) ` set kept)
     \<and> (\<forall>a\<in>set kept. strip (get_review (h' a)) \<noteq> [])"
proof -
  let ?V = "validate_reviews R min_length h"
  let ?tx = "\<lambda>a. strip (get_review (h a))"
  have sv: "subseq ?V R" by (rule validate_reviews_subseq)
  have dv: "distinct ?V" using assms by (rule validate_reviews_distinct)
  obtain kept h' where k: "dedup_loop {} ?V h = (kept, h')"
    and sub: "subseq kept ?V"
    and hp: "\<forall>a. h' a = (if a \<in> set kept
                      then (h a)\<lparr>review := Some (clean_review_text (?tx a))\<rparr>
                      else h a)"
    and dt: "distinct (map ?tx kept)"
    and ns: "\<forall>a\<in>set kept. ?tx a \<notin> {} \<and> ?tx a \<noteq> []"
    and cov: "\<forall>a\<in>set ?V. ?tx a \<noteq> [] \<longrightarrow> ?tx a \<in> {} \<union> ?tx ` set kept"
    using dedup_loop_distinct[OF dv, of "{}" h] by blast
  have 1: "deduplicate_reviews ?V h = (kept, h')" using k by (simp add: deduplicate_reviews_def)
  have 2: "subseq kept R" using sub sv by (rule subseq_order.order_trans)
  have "set kept \<subseteq> set ?V" using sub by (auto dest: list_emb_set)
  then have 5: "\<forall>a\<in>set kept. min_length \<le> int (length (?tx a))
           \<and> (\<exists>c\<in>set (?tx a). isalpha c) \<and> ?tx a \<noteq> []"
    using validate_reviews_valid[of R min_length h] ns by blast
  have 6: "\<forall>a\<in>set ?V. ?tx a \<in> ?tx ` set kept"
  proof
    fix a assume a: "a \<in> set ?V"
    then have "\<exists>c\<in>set (?tx a). isalpha c" using validate_reviews_valid[of R min_length h] by blast
    then have "?tx a \<noteq> []" by auto
    then show "?tx a \<in> ?tx ` set kept" using cov a by simp
  qed
  have 7: "\<forall>a\<in>set kept. strip (get_review (h' a)) \<noteq> []"
    using dedup_loop_nonblank[of "{}" ?V h] k by simp
  show ?thesis using 1 2 hp dt 5 6 7 by blast
qed

theorem dedup_validate_amended_witness:
  "validate_reviews [0, 1, 2, 3, 4, 5, 6] 20 mixed_store = [0, 2, 4]
   \<and> fst (deduplicate_reviews (validate_reviews [0, 1, 2, 3, 4, 5, 6] 20 mixed_store)
            mixed_store) = [0, 4]
   \<and> map (\<lambda>a. review (snd (deduplicate_reviews
                  (validate_reviews [0, 1, 2, 3, 4, 5, 6] 20 mixed_store) mixed_store) a))
       [0, 2, 4]
     = [Some ''Great food and service here'', Some ''Rated Great food and service here'',
        Some ''Another fine review of this place'']
   \<and> (\<exists>kept h'. deduplicate_reviews (validate_reviews [0, 1, 2, 3, 4, 5, 6] 20 mixed_store)
                   mixed_store = (kept, h')
     \<and> subseq kept [0, 1, 2, 3, 4, 5, 6]
     \<and> (\<forall>a. h' a = (if a \<in> set kept
                      then (mixed_store a)\<lparr>review :=
                             Some (clean_review_text (strip (get_review (mixed_store a))))\<rparr>
                      else mixed_store a))
     \<and> distinct (map (\<lambda>a. strip (get_review (mixed_store a))) kept)
     \<and> (\<forall>a\<in>set kept. 20 \<le> int (length (strip (get_review (mixed_store a))))
           \<and> (\<exists>c\<in>set (strip (get_review (mixed_store a))). isalpha c)
           \<and> strip (get_review (mixed_store a)) \<noteq> [])
     \<and> (\<forall>a\<in>set (validate_reviews [0, 1, 2, 3, 4, 5, 6] 20 mixed_store).
           strip (get_review (mixed_store a))
           \<in> (\<lambda>b. strip (get_review (mixed_store b))) ` set kept)
     \<and> (\<forall>a\<in>set kept. strip (get_review (h' a)) \<noteq> []))"
proof (intro conjI)
  show "validate_reviews [0, 1, 2, 3, 4, 5, 6] 20 mixed_store = [0, 2, 4]"
    by code_simp
  show "fst (deduplicate_reviews (validate_reviews [0, 1, 2, 3, 4, 5, 6] 20 mixed_store)
            mixed_store) = [0, 4]"
    by code_simp
  show "map (\<lambda>a. review (snd (deduplicate_reviews
                  (validate_reviews [0, 1, 2, 3, 4, 5, 6] 20 mixed_store) mixed_store) a))
       [0, 2, 4]
     = [Some ''Great food and service here'', Some ''Rated Great food and service here'',
        Some ''Another fine review of this place'']"
    by code_simp
  have d: "distinct [0, 1, 2, 3, 4, 5, 6 :: nat]" by simp
  show "\<exists>kept h'. deduplicate_reviews (validate_reviews [0, 1, 2, 3, 4, 5, 6] 20 mixed_store)
                   mixed_store = (kept, h')
     \<and> subseq kept [0, 1, 2, 3, 4, 5, 6]
     \<and> (\<forall>a. h' a = (if a \<in> set kept
                      then (mixed_store a)\<lparr>review :=
                             Some (clean_review_text (strip (get_review (mixed_store a))))\<rparr>
                      else mixed_store a))
     \<and> distinct (map (\<lambda>a. strip (get_review (mixed_store a))) kept)
     \<and> (\<forall>a\<in>set kept. 20 \<le> int (length (strip (get_review (mixed_store a))))
           \<and> (\<exists>c\<in>set (strip (get_review (mixed_store a))). isalpha c)
           \<and> strip (get_review (mixed_store a)) \<noteq> [])
     \<and> (\<forall>a\<in>set (validate_reviews [0, 1, 2, 3, 4, 5, 6] 20 mixed_store).
           strip (get_review (mixed_store a))
           \<in> (\<lambda>b. strip (get_review (mixed_store b))) ` set kept)
     \<and> (\<forall>a\<in>set kept. strip (get_review (h' a)) \<noteq> [])"
    by (rule dedup_validate_amended[OF d])
qed

section \<open>Content extractor\<close>

lemma extract_loop_skip:
  assumes "\<forall>bs. soup p = Inr bs \<longrightarrow> bs = []"
  shows "extract_loop soup (p # ps)
         = (fst (extract_loop soup ps), p # snd (extract_loop soup ps))"
  using assms by (cases "soup p") (simp_all add: case_prod_unfold Let_def)

lemma block_texts_kept:
  "block_texts review_blocks
   = filter (\<lambda>t. MIN_REVIEW_LENGTH < int (length t)) (map get_text_strip review_blocks)"
  unfolding block_texts_def MIN_REVIEW_LENGTH_def by (rule filter_cong) auto

text \<open>
  Claim C3. For every document and every list of selectors: when a selector \<open>s\<close> of the
  list matches at least one element and no selector before it does (each of them matches
  nothing or raises), the extractor returns the texts kept from the elements \<open>s\<close> matched,
  and \<open>soup.select\<close> is called with the selectors up to \<open>s\<close> and with none after it. So
  when an earlier and a later selector both match, the earlier one's results are returned.
\<close>

theorem extract_loop_first_match:
  assumes "\<forall>p\<in>set pre. \<forall>bs'. soup p = Inr bs' \<longrightarrow> bs' = []"
    and "soup s = Inr bs" and "bs \<noteq> []"
  shows "extract_loop soup (pre @ s # post) = (block_texts bs, pre @ [s])"
  using assms(1)
proof (induction pre)
  case Nil
  then show ?case using assms(2,3) by simp
next
  case (Cons p pre)
  have "\<forall>bs. soup p = Inr bs \<longrightarrow> bs = []" using Cons.prems by simp
  then have "extract_loop soup (p # (pre @ s # post))
         = (fst (extract_loop soup (pre @ s # post)), p # snd (extract_loop soup (pre @ s # post)))"
    by (rule extract_loop_skip)
  moreover have "extract_loop soup (pre @ s # post) = (block_texts bs, pre @ [s])"
    using Cons.prems by (intro Cons.IH) simp
  ultimately show ?case by simp
qed

theorem extract_loop_first_match_witness:
  "extract_loop
     (\<lambda>sel. if sel = ''p.narrow'' then Inr [[''  The food here was great and cheap  '']]
            else if sel = ''p'' then Inr [[''Some other paragraph of the page, not a review'']]
            else if sel = ''p.bad'' then Inl Exception
            else Inr [])
     [''p.none'', ''p.bad'', ''p.narrow'', ''p'']
   = ([''The food here was great and cheap''], [''p.none'', ''p.bad'', ''p.narrow''])"
  using extract_loop_first_match
    [of "[''p.none'', ''p.bad'']"
        "\<lambda>sel. if sel = ''p.narrow'' then Inr [[''  The food here was great and cheap  '']]
            else if sel = ''p'' then Inr [[''Some other paragraph of the page, not a review'']]
            else if sel = ''p.bad'' then Inl Exception
            else Inr []"
        "''p.narrow''" "[[''  The food here was great and cheap  '']]" "[''p'']"]
  by (simp add: block_texts_def get_text_strip_def strip_def isspace_def MIN_REVIEW_LENGTH_def)

text \<open>
  Claim C6 says that a block whose trimmed text is exactly as long as the configured
  minimum is kept. The extractor keeps a text only if it is longer than
  \<open>MIN_REVIEW_LENGTH\<close>: a block of 20 characters is discarded, one of 21 is kept.
\<close>

theorem block_texts_drops_minimum_length:
  "length ''exactly twenty chars'' = 20
   \<and> block_texts [['' exactly twenty chars '']] = []
   \<and> block_texts [['' exactly twenty chars! '']] = [''exactly twenty chars!'']"
  by (simp add: block_texts_def get_text_strip_def strip_def isspace_def MIN_REVIEW_LENGTH_def)

section \<open>Page crawler\<close>

lemma page_body_keeps: "prefix (snd st) (snd (fst (page_body w u fu p st)))"
  unfolding page_body_def Let_def by (simp split: sum.split)

lemma page_try_returns:
  "\<exists>st' f. page_try w u fu p st = (st', Inr f) \<and> prefix (snd st) (snd st')"
proof -
  obtain st' r where b: "page_body w u fu p st = (st', r)" by (cases "page_body w u fu p st")
  have k: "prefix (snd st) (snd st')" using page_body_keeps[of st w u fu p] b by simp
  show ?thesis
  proof (cases r)
    case (Inl e)
    then show ?thesis using b k unfolding page_try_def by (cases e) simp_all
  next
    case (Inr f)
    then show ?thesis using b k unfolding page_try_def by simp
  qed
qed

lemma for_pages_returns:
  "\<exists>st'. for_pages w u ru pages st = (st', Inr ()) \<and> prefix (snd st) (snd st')"
proof (induction pages arbitrary: st)
  case Nil
  then show ?case by simp
next
  case (Cons p pages)
  obtain st1 f where t: "page_try w u (ru @ ''?page='' @ str_nat p) p st = (st1, Inr f)"
    and k: "prefix (snd st) (snd st1)"
    using page_try_returns[of w u "ru @ ''?page='' @ str_nat p" p st] by blast
  show ?case
  proof (cases f)
    case Next
    obtain st2 where "for_pages w u ru pages st1 = (st2, Inr ())" "prefix (snd st1) (snd st2)"
      using Cons.IH[of st1] by blast
    then show ?thesis using t k Next by (auto intro: prefix_order.order_trans)
  next
    case Break
    then show ?thesis using t k by simp
  qed
qed

lemma scrape_restaurant_reviews_returns:
  "\<exists>s' rs. scrape_restaurant_reviews w res_url s = (s', Inr rs)"
proof -
  obtain st' where r: "for_pages w res_url (get_review_url res_url) [1..<MAX_PAGES + 1] (s, [])
      = (st', Inr ())"
    using for_pages_returns[of w res_url "get_review_url res_url" "[1..<MAX_PAGES + 1]" "(s, [])"]
    by blast
  obtain s' rs where "st' = (s', rs)" by (cases st')
  then have "scrape_restaurant_reviews w res_url s = (s', Inr rs)"
    unfolding scrape_restaurant_reviews_def Let_def using r by simp
  then show ?thesis by blast
qed

lemma page_try_ok:
  assumes "page_texts w ru (requests s) j = Some ts" and "ts \<noteq> []"
  shows "\<exists>s1 recs. page_try w u (ru @ ''?page='' @ str_nat j) j (s, acc)
           = ((s1, acc @ recs), Inr Next)
         \<and> requests s1 = Suc (requests s)
         \<and> map (\<lambda>r. (restaurant_url r, page r, review r)) recs = map (\<lambda>t. (u, j, Some t)) ts"
proof -
  obtain resp where g: "session_get w (requests s) (ru @ ''?page='' @ str_nat j) = Inr resp"
    using assms(1) unfolding page_texts_def by (auto split: sum.splits)
  have st: "status_code resp = 200"
    using assms(1) g unfolding page_texts_def by (auto split: if_splits)
  obtain soup where b: "BeautifulSoup w (resp_text resp) = Inr soup"
    using assms(1) g st unfolding page_texts_def by (auto split: sum.splits)
  have e: "extract_reviews soup = ts"
    using assms(1) g st b unfolding page_texts_def by simp
  let ?recs = "map (\<lambda>(k, review_text).
                  \<lparr>restaurant_url = u, page = j, review = Some review_text,
                   scraped_at = now_isoformat w (clock_reads s + k)\<rparr>) (enumerate 0 ts)"
  have body: "page_body w u (ru @ ''?page='' @ str_nat j) j (s, acc)
      = ((s\<lparr>requests := Suc (requests s), clock_reads := clock_reads s + length ts\<rparr>,
          acc @ ?recs), Inr Next)"
    unfolding page_body_def Let_def using g st b e assms(2) by simp
  have "map (\<lambda>r. (restaurant_url r, page r, review r)) ?recs
      = map ((\<lambda>t. (u, j, Some t)) \<circ> snd) (enumerate 0 ts)"
    by (simp add: case_prod_unfold comp_def)
  also have "\<dots> = map (\<lambda>t. (u, j, Some t)) (map snd (enumerate 0 ts))"
    by (simp only: map_map)
  also have "\<dots> = map (\<lambda>t. (u, j, Some t)) ts"
    by (simp only: map_snd_enumerate)
  finally have proj: "map (\<lambda>r. (restaurant_url r, page r, review r)) ?recs
      = map (\<lambda>t. (u, j, Some t)) ts" .
  show ?thesis
    unfolding page_try_def using body proj by simp
qed

lemma page_try_halt:
  assumes "page_texts w ru (requests s) k = None \<or> page_texts w ru (requests s) k = Some []"
  shows "\<exists>s1. page_try w u (ru @ ''?page='' @ str_nat k) k (s, acc) = ((s1, acc), Inr Break)
         \<and> requests s1 = Suc (requests s)"
proof -
  let ?fu = "ru @ ''?page='' @ str_nat k"
  let ?s1 = "s\<lparr>requests := Suc (requests s)\<rparr>"
  have "\<exists>r. page_body w u ?fu k (s, acc) = ((?s1, acc), r)"
  proof (cases "session_get w (requests s) ?fu")
    case (Inl e)
    then show ?thesis unfolding page_body_def Let_def by simp
  next
    case (Inr resp)
    show ?thesis
    proof (cases "status_code resp = 200")
      case False
      then show ?thesis unfolding page_body_def Let_def using Inr by simp
    next
      case True
      show ?thesis
      proof (cases "BeautifulSoup w (resp_text resp)")
        case (Inl e)
        then show ?thesis unfolding page_body_def Let_def using Inr True by simp
      next
        case soup: (Inr soup)
        have "extract_reviews soup = []"
          using assms Inr True soup unfolding page_texts_def by simp
        then show ?thesis unfolding page_body_def Let_def using Inr True soup by simp
      qed
    qed
  qed
  then obtain r where b: "page_body w u ?fu k (s, acc) = ((?s1, acc), r)" by blast
  have nn: "r \<noteq> Inr Next"
  proof (cases "session_get w (requests s) ?fu")
    case (Inl e)
    then show ?thesis using b unfolding page_body_def Let_def by auto
  next
    case (Inr resp)
    show ?thesis
    proof (cases "status_code resp = 200")
      case False
      then show ?thesis using b unfolding page_body_def Let_def using Inr by auto
    next
      case True
      show ?thesis
      proof (cases "BeautifulSoup w (resp_text resp)")
        case (Inl e)
        then show ?thesis using b unfolding page_body_def Let_def using Inr True by auto
      next
        case soup: (Inr soup)
        have "extract_reviews soup = []"
          using assms Inr True soup unfolding page_texts_def by simp
        then show ?thesis using b unfolding page_body_def Let_def using Inr True soup by auto
      qed
    qed
  qed
  have "page_try w u ?fu k (s, acc) = ((?s1, acc), Inr Break)"
  proof (cases r)
    case (Inl e)
    then show ?thesis unfolding page_try_def using b by (cases e) simp_all
  next
    case (Inr f)
    then have "f = Break" using nn by (cases f) simp_all
    then show ?thesis unfolding page_try_def using b Inr by simp
  qed
  then show ?thesis by simp
qed

lemma for_pages_ok:
  assumes "i \<le> k"
    and "\<forall>j. i \<le> j \<and> j < k \<longrightarrow>
           page_texts w ru (requests s + (j - i)) j = Some (texts j) \<and> texts j \<noteq> []"
  shows "\<exists>s1 acc1. for_pages w u ru ([i..<k] @ rest) (s, acc)
             = for_pages w u ru rest (s1, acc1)
         \<and> requests s1 = requests s + (k - i)
         \<and> map (\<lambda>r. (restaurant_url r, page r, review r)) acc1
           = map (\<lambda>r. (restaurant_url r, page r, review r)) acc
             @ concat (map (\<lambda>j. map (\<lambda>t. (u, j, Some t)) (texts j)) [i..<k])"
  using assms
proof (induction "k - i" arbitrary: i s acc)
  case 0
  then have ik: "i = k" by simp
  have "for_pages w u ru ([i..<k] @ rest) (s, acc) = for_pages w u ru rest (s, acc)"
    "requests s = requests s + (k - i)"
    "map (\<lambda>r. (restaurant_url r, page r, review r)) acc
           = map (\<lambda>r. (restaurant_url r, page r, review r)) acc
             @ concat (map (\<lambda>j. map (\<lambda>t. (u, j, Some t)) (texts j)) [i..<k])"
    using ik by simp_all
  then show ?case by blast
next
  case (Suc n)
  then have lt: "i < k" by simp
  have up: "[i..<k] = i # [Suc i..<k]" using lt by (rule upt_conv_Cons)
  have ti: "page_texts w ru (requests s) i = Some (texts i)" "texts i \<noteq> []"
    using Suc.prems(2) lt by force+
  obtain s1 recs where
    t: "page_try w u (ru @ ''?page='' @ str_nat i) i (s, acc) = ((s1, acc @ recs), Inr Next)"
    and r1: "requests s1 = Suc (requests s)"
    and pr: "map (\<lambda>r. (restaurant_url r, page r, review r)) recs
              = map (\<lambda>t. (u, i, Some t)) (texts i)"
    using page_try_ok[OF ti, of u acc] by blast
  have n: "n = k - Suc i" using Suc.hyps(2) by simp
  have le: "Suc i \<le> k" using lt by simp
  have ok: "\<forall>j. Suc i \<le> j \<and> j < k \<longrightarrow>
           page_texts w ru (requests s1 + (j - Suc i)) j = Some (texts j) \<and> texts j \<noteq> []"
  proof (intro allI impI)
    fix j assume j: "Suc i \<le> j \<and> j < k"
    then have "requests s1 + (j - Suc i) = requests s + (j - i)" using r1 by arith
    moreover have "i \<le> j \<and> j < k" using j by simp
    ultimately show "page_texts w ru (requests s1 + (j - Suc i)) j = Some (texts j)
        \<and> texts j \<noteq> []"
      using Suc.prems(2) by simp
  qed
  obtain s' acc' where
    l: "for_pages w u ru ([Suc i..<k] @ rest) (s1, acc @ recs) = for_pages w u ru rest (s', acc')"
    and r': "requests s' = requests s1 + (k - Suc i)"
    and p': "map (\<lambda>r. (restaurant_url r, page r, review r)) acc'
           = map (\<lambda>r. (restaurant_url r, page r, review r)) (acc @ recs)
             @ concat (map (\<lambda>j. map (\<lambda>t. (u, j, Some t)) (texts j)) [Suc i..<k])"
    using Suc.hyps(1)[OF n le ok, of "acc @ recs"] by blast
  have "for_pages w u ru ([i..<k] @ rest) (s, acc) = for_pages w u ru rest (s', acc')"
    unfolding up using t l by simp
  moreover have "requests s' = requests s + (k - i)" using r' r1 lt by arith
  moreover have "map (\<lambda>r. (restaurant_url r, page r, review r)) acc'
           = map (\<lambda>r. (restaurant_url r, page r, review r)) acc
             @ concat (map (\<lambda>j. map (\<lambda>t. (u, j, Some t)) (texts j)) [i..<k])"
    unfolding up using p' pr by simp
  ultimately show ?case by blast
qed

lemma for_pages_until_halt:
  assumes "i \<le> k"
    and "\<forall>j. i \<le> j \<and> j < k \<longrightarrow>
           page_texts w ru (requests s + (j - i)) j = Some (texts j) \<and> texts j \<noteq> []"
    and "page_texts w ru (requests s + (k - i)) k = None
         \<or> page_texts w ru (requests s + (k - i)) k = Some []"
  shows "\<exists>s' acc'. for_pages w u ru ([i..<k] @ k # rest) (s, acc) = ((s', acc'), Inr ())
         \<and> requests s' = requests s + (k - i) + 1
         \<and> map (\<lambda>r. (restaurant_url r, page r, review r)) acc'
           = map (\<lambda>r. (restaurant_url r, page r, review r)) acc
             @ concat (map (\<lambda>j. map (\<lambda>t. (u, j, Some t)) (texts j)) [i..<k])"
proof -
  obtain s1 acc1 where
    l: "for_pages w u ru ([i..<k] @ k # rest) (s, acc) = for_pages w u ru (k # rest) (s1, acc1)"
    and r1: "requests s1 = requests s + (k - i)"
    and p1: "map (\<lambda>r. (restaurant_url r, page r, review r)) acc1
           = map (\<lambda>r. (restaurant_url r, page r, review r)) acc
             @ concat (map (\<lambda>j. map (\<lambda>t. (u, j, Some t)) (texts j)) [i..<k])"
    using for_pages_ok[OF assms(1,2), of u "k # rest" acc] by blast
  have "page_texts w ru (requests s1) k = None \<or> page_texts w ru (requests s1) k = Some []"
    using assms(3) r1 by simp
  then obtain s2 where
    "page_try w u (ru @ ''?page='' @ str_nat k) k (s1, acc1) = ((s2, acc1), Inr Break)"
    "requests s2 = Suc (requests s1)"
    using page_try_halt[of w ru s1 k u acc1] by blast
  then have "for_pages w u ru (k # rest) (s1, acc1) = ((s2, acc1), Inr ())"
    "requests s2 = requests s + (k - i) + 1"
    using r1 by simp_all
  then show ?thesis using l p1 by simp
qed

lemma scrape_until_halt:
  assumes "1 \<le> k" and "k \<le> MAX_PAGES + 1"
    and "\<forall>j. 1 \<le> j \<and> j < k \<longrightarrow>
           page_texts w (get_review_url res_url) (requests s + (j - 1)) j = Some (texts j)
           \<and> texts j \<noteq> []"
    and "k \<le> MAX_PAGES \<longrightarrow>
           page_texts w (get_review_url res_url) (requests s + (k - 1)) k = None
           \<or> page_texts w (get_review_url res_url) (requests s + (k - 1)) k = Some []"
  shows "\<exists>s' rs. scrape_restaurant_reviews w res_url s = (s', Inr rs)
           \<and> requests s' = requests s + min k MAX_PAGES
           \<and> map (\<lambda>r. (restaurant_url r, page r, review r)) rs
             = concat (map (\<lambda>j. map (\<lambda>t. (res_url, j, Some t)) (texts j)) [1..<k])"
proof (cases "k \<le> MAX_PAGES")
  case True
  have "[1..<MAX_PAGES + 1] = [1..<k] @ [k..<MAX_PAGES + 1]"
    using assms(1) True
    by (metis le_add1 le_trans upt_add_eq_append le_Suc_ex add.commute Suc_eq_plus1 le_SucI)
  moreover have "[k..<MAX_PAGES + 1] = k # [Suc k..<MAX_PAGES + 1]"
    using True by (simp add: upt_conv_Cons)
  ultimately have pages: "[1..<MAX_PAGES + 1] = [1..<k] @ k # [Suc k..<MAX_PAGES + 1]" by simp
  have halt: "page_texts w (get_review_url res_url) (requests s + (k - 1)) k = None
           \<or> page_texts w (get_review_url res_url) (requests s + (k - 1)) k = Some []"
    using assms(4) True by simp
  have "\<exists>s' acc'.
      for_pages w res_url (get_review_url res_url) ([1..<k] @ k # [Suc k..<MAX_PAGES + 1])
        (s, []) = ((s', acc'), Inr ())
      \<and> requests s' = requests s + (k - 1) + 1
      \<and> map (\<lambda>r. (restaurant_url r, page r, review r)) acc'
           = concat (map (\<lambda>j. map (\<lambda>t. (res_url, j, Some t)) (texts j)) [1..<k])"
    using for_pages_until_halt[OF assms(1,3) halt, of res_url "[Suc k..<MAX_PAGES + 1]" "[]"]
    by simp
  then obtain s' acc' where
    l: "for_pages w res_url (get_review_url res_url) ([1..<k] @ k # [Suc k..<MAX_PAGES + 1]) (s, [])
          = ((s', acc'), Inr ())"
    and r: "requests s' = requests s + (k - 1) + 1"
    and p: "map (\<lambda>r. (restaurant_url r, page r, review r)) acc'
           = concat (map (\<lambda>j. map (\<lambda>t. (res_url, j, Some t)) (texts j)) [1..<k])"
    by (elim exE conjE)
  have "scrape_restaurant_reviews w res_url s = (s', Inr acc')"
    unfolding scrape_restaurant_reviews_def Let_def pages using l by simp
  moreover have "requests s' = requests s + min k MAX_PAGES" using r assms(1) True by arith
  ultimately show ?thesis using p by simp
next
  case False
  then have k: "k = MAX_PAGES + 1" using assms(2) by arith
  have "\<exists>s' acc'.
      for_pages w res_url (get_review_url res_url) ([1..<k] @ []) (s, [])
        = for_pages w res_url (get_review_url res_url) [] (s', acc')
      \<and> requests s' = requests s + (k - 1)
      \<and> map (\<lambda>r. (restaurant_url r, page r, review r)) acc'
           = concat (map (\<lambda>j. map (\<lambda>t. (res_url, j, Some t)) (texts j)) [1..<k])"
    using for_pages_ok[OF assms(1,3), of res_url "[]" "[]"] by simp
  then obtain s' acc' where
    l: "for_pages w res_url (get_review_url res_url) ([1..<k] @ []) (s, [])
        = for_pages w res_url (get_review_url res_url) [] (s', acc')"
    and r: "requests s' = requests s + (k - 1)"
    and p: "map (\<lambda>r. (restaurant_url r, page r, review r)) acc'
           = concat (map (\<lambda>j. map (\<lambda>t. (res_url, j, Some t)) (texts j)) [1..<k])"
    by (elim exE conjE)
  have "for_pages w res_url (get_review_url res_url) [1..<MAX_PAGES + 1] (s, [])
      = ((s', acc'), Inr ())"
    using l k by simp
  then have "scrape_restaurant_reviews w res_url s = (s', Inr acc')"
    unfolding scrape_restaurant_reviews_def Let_def by simp
  moreover have "requests s' = requests s + min k MAX_PAGES" using r k by simp
  ultimately show ?thesis using p by simp
qed

text \<open>
  Claim C8. For every identifier and every world, that is every sequence of page outcomes,
  the crawl does not raise: \<open>_scrape_restaurant_reviews\<close> returns a list of records. A
  page succeeds when it is fetched with status 200, parsed, and yields at least one text.
  Every other outcome stops the crawl: a timeout or another error of the request, a status
  other than 200 and an error while parsing (\<open>page_texts\<close> is \<open>None\<close>), and a page without
  texts (\<open>Some []\<close>). If pages 1 to \<open>k - 1\<close> succeed and page \<open>k\<close> does not, or if
  \<open>k - 1\<close> is \<open>MAX_PAGES\<close>, the crawl makes \<open>min k MAX_PAGES\<close> requests, so none after
  page \<open>k\<close>, and returns exactly the records of pages 1 to \<open>k - 1\<close>, in order.
\<close>

theorem crawl_never_raises:
  "(\<exists>s' rs. scrape_restaurant_reviews w res_url s = (s', Inr rs))
   \<and> (1 \<le> k \<and> k \<le> MAX_PAGES + 1
      \<and> (\<forall>j. 1 \<le> j \<and> j < k \<longrightarrow>
           page_texts w (get_review_url res_url) (requests s + (j - 1)) j = Some (texts j)
           \<and> texts j \<noteq> [])
      \<and> (k \<le> MAX_PAGES \<longrightarrow>
           page_texts w (get_review_url res_url) (requests s + (k - 1)) k = None
           \<or> page_texts w (get_review_url res_url) (requests s + (k - 1)) k = Some [])
      \<longrightarrow> (\<exists>s' rs. scrape_restaurant_reviews w res_url s = (s', Inr rs)
           \<and> requests s' = requests s + min k MAX_PAGES
           \<and> map (\<lambda>r. (restaurant_url r, page r, review r)) rs
             = concat (map (\<lambda>j. map (\<lambda>t. (res_url, j, Some t)) (texts j)) [1..<k])))"
proof (intro conjI impI)
  show "\<exists>s' rs. scrape_restaurant_reviews w res_url s = (s', Inr rs)"
    by (rule scrape_restaurant_reviews_returns)
next
  assume h: "1 \<le> k \<and> k \<le> MAX_PAGES + 1
      \<and> (\<forall>j. 1 \<le> j \<and> j < k \<longrightarrow>
           page_texts w (get_review_url res_url) (requests s + (j - 1)) j = Some (texts j)
           \<and> texts j \<noteq> [])
      \<and> (k \<le> MAX_PAGES \<longrightarrow>
           page_texts w (get_review_url res_url) (requests s + (k - 1)) k = None
           \<or> page_texts w (get_review_url res_url) (requests s + (k - 1)) k = Some [])"
  show "\<exists>s' rs. scrape_restaurant_reviews w res_url s = (s', Inr rs)
           \<and> requests s' = requests s + min k MAX_PAGES
           \<and> map (\<lambda>r. (restaurant_url r, page r, review r)) rs
             = concat (map (\<lambda>j. map (\<lambda>t. (res_url, j, Some t)) (texts j)) [1..<k])"
    by (rule scrape_until_halt) (use h in blast)+
qed


theorem crawl_never_raises_witness:
  "(\<exists>s' rs. scrape_restaurant_reviews one_page_world ''https://z.example/r/'' no_files
             = (s', Inr rs)
      \<and> requests s' = requests no_files + min 2 MAX_PAGES
      \<and> map (\<lambda>r. (restaurant_url r, page r, review r)) rs
        = concat (map (\<lambda>j. map (\<lambda>t. (''https://z.example/r/'', j, Some t))
                               [''The food here was great and cheap'']) [1..<2]))
   \<and> (\<exists>s' rs. scrape_restaurant_reviews not_found_world ''https://z.example/r/'' no_files
             = (s', Inr rs)
      \<and> requests s' = requests no_files + min 2 MAX_PAGES
      \<and> map (\<lambda>r. (restaurant_url r, page r, review r)) rs
        = concat (map (\<lambda>j. map (\<lambda>t. (''https://z.example/r/'', j, Some t))
                               [''The food here was great and cheap'']) [1..<2]))
   \<and> page_texts one_page_world (get_review_url ''https://z.example/r/'') 1 2 = None
   \<and> page_texts not_found_world (get_review_url ''https://z.example/r/'') 1 2 = None"
proof -
  let ?u = "''https://z.example/r/''"
  let ?ts = "[''The food here was great and cheap'']"
  have a1: "page_texts one_page_world (get_review_url ?u) 0 1 = Some ?ts"
    by code_simp
  have a2: "page_texts one_page_world (get_review_url ?u) 1 2 = None"
    by code_simp
  have b1: "page_texts not_found_world (get_review_url ?u) 0 1 = Some ?ts"
    by code_simp
  have b2: "page_texts not_found_world (get_review_url ?u) 1 2 = None"
    by code_simp
  have r0: "requests no_files = 0" by (simp add: no_files_def)
  have ha: "1 \<le> (2::nat) \<and> 2 \<le> MAX_PAGES + 1
      \<and> (\<forall>j. 1 \<le> j \<and> j < 2 \<longrightarrow>
           page_texts one_page_world (get_review_url ?u) (requests no_files + (j - 1)) j
             = Some ?ts \<and> ?ts \<noteq> [])
      \<and> (2 \<le> MAX_PAGES \<longrightarrow>
           page_texts one_page_world (get_review_url ?u) (requests no_files + (2 - 1)) 2 = None
           \<or> page_texts one_page_world (get_review_url ?u) (requests no_files + (2 - 1)) 2
              = Some [])"
  proof (intro conjI allI impI)
    fix j :: nat assume "1 \<le> j \<and> j < 2"
    then have "j = 1" by arith
    then show "page_texts one_page_world (get_review_url ?u) (requests no_files + (j - 1)) j
        = Some ?ts"
      using a1 r0 by simp
  next
    show "page_texts one_page_world (get_review_url ?u) (requests no_files + (2 - 1)) 2 = None
           \<or> page_texts one_page_world (get_review_url ?u) (requests no_files + (2 - 1)) 2
              = Some []"
      using a2 r0 by simp
  qed (simp_all add: MAX_PAGES_def)
  have hb: "1 \<le> (2::nat) \<and> 2 \<le> MAX_PAGES + 1
      \<and> (\<forall>j. 1 \<le> j \<and> j < 2 \<longrightarrow>
           page_texts not_found_world (get_review_url ?u) (requests no_files + (j - 1)) j
             = Some ?ts \<and> ?ts \<noteq> [])
      \<and> (2 \<le> MAX_PAGES \<longrightarrow>
           page_texts not_found_world (get_review_url ?u) (requests no_files + (2 - 1)) 2 = None
           \<or> page_texts not_found_world (get_review_url ?u) (requests no_files + (2 - 1)) 2
              = Some [])"
  proof (intro conjI allI impI)
    fix j :: nat assume "1 \<le> j \<and> j < 2"
    then have "j = 1" by arith
    then show "page_texts not_found_world (get_review_url ?u) (requests no_files + (j - 1)) j
        = Some ?ts"
      using b1 r0 by simp
  next
    show "page_texts not_found_world (get_review_url ?u) (requests no_files + (2 - 1)) 2 = None
           \<or> page_texts not_found_world (get_review_url ?u) (requests no_files + (2 - 1)) 2
              = Some []"
      using b2 r0 by simp
  qed (simp_all add: MAX_PAGES_def)
  show ?thesis
    using crawl_never_raises[of one_page_world ?u no_files 2 "\<lambda>j. ?ts"]
      crawl_never_raises[of not_found_world ?u no_files 2 "\<lambda>j. ?ts"]
      ha hb a2 b2
    by blast
qed

text \<open>
  Claim C4. For every identifier: if pages 1 to \<open>k - 1\<close> are each fetched with status 200,
  parsed, and yield at least one extracted text, and page \<open>k\<close> (with \<open>k\<close> at most
  \<open>MAX_PAGES\<close>) yields none, then the crawl stops at page \<open>k\<close>, having made \<open>k\<close> requests, and
  returns exactly the records of pages 1 to \<open>k - 1\<close>, in order, each with the identifier,
  its page number and its text.
\<close>

theorem crawl_stops_at_empty_page:
  assumes "1 \<le> k" and "k \<le> MAX_PAGES"
    and "\<forall>j. 1 \<le> j \<and> j < k \<longrightarrow>
           page_texts w (get_review_url res_url) (requests s + (j - 1)) j = Some (texts j)
           \<and> texts j \<noteq> []"
    and "page_texts w (get_review_url res_url) (requests s + (k - 1)) k = Some []"
  shows "\<exists>s' rs. scrape_restaurant_reviews w res_url s = (s', Inr rs)
           \<and> requests s' = requests s + k
           \<and> map (\<lambda>r. (restaurant_url r, page r, review r)) rs
             = concat (map (\<lambda>j. map (\<lambda>t. (res_url, j, Some t)) (texts j)) [1..<k])"
proof -
  have le: "k \<le> MAX_PAGES + 1" using assms(2) by simp
  have halt: "k \<le> MAX_PAGES \<longrightarrow>
           page_texts w (get_review_url res_url) (requests s + (k - 1)) k = None
           \<or> page_texts w (get_review_url res_url) (requests s + (k - 1)) k = Some []"
    using assms(4) by simp
  have m: "min k MAX_PAGES = k" using assms(2) by simp
  show ?thesis
    using scrape_until_halt[OF assms(1) le assms(3) halt] unfolding m .
qed


theorem crawl_stops_at_empty_page_witness:
  "\<exists>s' rs. scrape_restaurant_reviews short_listing_world ''https://z.example/r/'' no_files
             = (s', Inr rs)
     \<and> requests s' = requests no_files + 2
     \<and> map (\<lambda>r. (restaurant_url r, page r, review r)) rs
       = concat (map (\<lambda>j. map (\<lambda>t. (''https://z.example/r/'', j, Some t))
                               [''The food here was great and cheap'']) [1..<2])"
proof -
  have h1: "page_texts short_listing_world (get_review_url ''https://z.example/r/'') 0 1
      = Some [''The food here was great and cheap'']"
    by code_simp
  have h2: "page_texts short_listing_world (get_review_url ''https://z.example/r/'')
      (requests no_files + (2 - 1)) 2 = Some []"
    by code_simp
  have ok: "\<forall>j. 1 \<le> j \<and> j < 2 \<longrightarrow>
      page_texts short_listing_world (get_review_url ''https://z.example/r/'')
        (requests no_files + (j - 1)) j = Some [''The food here was great and cheap'']
      \<and> [''The food here was great and cheap''] \<noteq> []"
  proof (intro allI impI)
    fix j :: nat assume "1 \<le> j \<and> j < 2"
    then have "j = 1" by arith
    then show "page_texts short_listing_world (get_review_url ''https://z.example/r/'')
        (requests no_files + (j - 1)) j = Some [''The food here was great and cheap'']
      \<and> [''The food here was great and cheap''] \<noteq> []"
      using h1 by (simp add: no_files_def)
  qed
  have k1: "(1::nat) \<le> 2" by simp
  have k2: "2 \<le> MAX_PAGES" by (simp add: MAX_PAGES_def)
  show ?thesis
    by (rule crawl_stops_at_empty_page[OF k1 k2 ok h2])
qed

section \<open>Checkpoint store\<close>

lemma load_checkpoint_returns: "\<exists>v. load_checkpoint cm s = Inr v"
  unfolding load_checkpoint_def by (simp split: option.split sum.split)

lemma load_checkpoint_not_object:
  assumes "\<forall>kvs. files s (checkpoint_file cm) \<noteq> Some (JsonFile (JObj kvs))"
  shows "load_checkpoint cm s = Inr (JList [])"
proof (cases "files s (checkpoint_file cm)")
  case None
  then show ?thesis by (simp add: load_checkpoint_def)
next
  case (Some f)
  have "load_body f = Inl JSONDecodeError \<or> load_body f = Inl AttributeError"
  proof (cases f)
    case (JsonFile v)
    then have "\<forall>kvs. v \<noteq> JObj kvs" using assms Some by simp
    then show ?thesis using JsonFile by (cases v) (simp_all add: load_body_def)
  qed (simp_all add: load_body_def)
  then show ?thesis using Some by (auto simp: load_checkpoint_def)
qed

lemma load_checkpoint_object:
  assumes "files s (checkpoint_file cm) = Some (JsonFile (JObj kvs))"
  shows "load_checkpoint cm s =
     Inr (case map_of kvs ''processed_urls'' of
            None \<Rightarrow> JList []
          | Some v \<Rightarrow> (case py_len v of Inl e \<Rightarrow> JList [] | Inr n \<Rightarrow> v))"
  using assms
  by (simp add: load_checkpoint_def load_body_def Let_def split: option.split sum.split)

lemma run_not_a_list:
  assumes "load_checkpoint scraper_checkpoint_manager s = Inr v"
    and "\<forall>xs. v \<noteq> JList xs" and "py_contains v u = Inr False"
  shows "snd (scrape_all_reviews w (u # urls) s) = Inl AttributeError"
proof -
  let ?st0 = "\<lparr>outside = s, all_reviews = [], processed_urls = v\<rparr>"
  obtain s1 rs where sc: "scrape_restaurant_reviews w u (outside ?st0) = (s1, Inr rs)"
    using scrape_restaurant_reviews_returns by blast
  have ap: "py_append v u = Inl AttributeError"
    using assms(2) by (cases v) simp_all
  have "snd (url_step w (0, u) ?st0) = Inl AttributeError"
    using assms(3) sc ap by (simp add: url_step_def Let_def)
  then have "snd (urls_loop w ((0, u) # enumerate 1 urls) ?st0) = Inl AttributeError"
    by (cases "url_step w (0, u) ?st0") (simp split: sum.split)
  then have "snd (urls_loop w (enumerate 0 (u # urls)) ?st0) = Inl AttributeError"
    by (simp add: enumerate_simps)
  then show ?thesis
    unfolding scrape_all_reviews_def using assms(1)
    by (cases "urls_loop w (enumerate 0 (u # urls)) ?st0") (simp split: sum.split)
qed

text \<open>
  Claim C7, as stated: \<open>load_checkpoint\<close> returns the empty collection whenever the
  checkpoint file is absent or its contents are unreadable or corrupt, and corruption is
  never fatal to the run. It fails for a checkpoint that is a well-formed JSON object with
  a damaged \<open>processed_urls\<close> entry: when the entry is the string \<open>abc\<close>,
  \<open>load_checkpoint\<close> returns that string, and the run over one identifier ends with
  \<open>AttributeError\<close>, raised by \<open>processed_urls.append\<close>.
\<close>

theorem load_checkpoint_corrupt_counterexample:
  "load_checkpoint scraper_checkpoint_manager string_checkpoint = Inr (JStr ''abc'')
   \<and> snd (scrape_all_reviews timeout_world [''https://z.example/r/''] string_checkpoint)
     = Inl AttributeError"
  by code_simp

text \<open>
  Claim C7, amended. \<open>load_checkpoint\<close> never raises. It returns the empty list when the
  checkpoint file is absent, cannot be read or decoded, or holds a JSON value that is not
  an object; when it holds an object without the key \<open>processed_urls\<close>; and when it holds
  an object whose \<open>processed_urls\<close> is \<open>null\<close>, a boolean or a number (\<open>len\<close> raises inside
  the \<open>try\<close>). When the file holds an object whose \<open>processed_urls\<close> is a list, a string or
  an object, that value is returned as it is. If the value returned is not a list, the run
  over identifiers of which the first is not contained in it ends with \<open>AttributeError\<close>:
  corruption of this kind is fatal.
\<close>

theorem load_checkpoint_empty_or_stored:
  "(\<exists>v. load_checkpoint cm s = Inr v)
   \<and> ((\<forall>kvs. files s (checkpoint_file cm) \<noteq> Some (JsonFile (JObj kvs)))
        \<longrightarrow> load_checkpoint cm s = Inr (JList []))
   \<and> (files s (checkpoint_file cm) = Some (JsonFile (JObj kvs))
        \<longrightarrow> (map_of kvs ''processed_urls'' = None \<longrightarrow> load_checkpoint cm s = Inr (JList []))
          \<and> (\<forall>v. map_of kvs ''processed_urls'' = Some v \<longrightarrow>
                (v \<in> {JNull} \<union> range JBool \<union> range JNum
                   \<longrightarrow> load_checkpoint cm s = Inr (JList []))
              \<and> (v \<in> range JList \<union> range JStr \<union> range JObj
                   \<longrightarrow> load_checkpoint cm s = Inr v)))
   \<and> (load_checkpoint scraper_checkpoint_manager s = Inr v
        \<and> (\<forall>xs. v \<noteq> JList xs) \<and> py_contains v u = Inr False
        \<longrightarrow> snd (scrape_all_reviews w (u # urls) s) = Inl AttributeError)"
proof (intro conjI impI allI)
  show "\<exists>v. load_checkpoint cm s = Inr v" by (rule load_checkpoint_returns)
next
  assume "\<forall>kvs. files s (checkpoint_file cm) \<noteq> Some (JsonFile (JObj kvs))"
  then show "load_checkpoint cm s = Inr (JList [])" by (rule load_checkpoint_not_object)
next
  assume "files s (checkpoint_file cm) = Some (JsonFile (JObj kvs))"
    and "map_of kvs ''processed_urls'' = None"
  then show "load_checkpoint cm s = Inr (JList [])"
    using load_checkpoint_object[of s cm kvs] by simp
next
  fix v
  assume "files s (checkpoint_file cm) = Some (JsonFile (JObj kvs))"
    and "map_of kvs ''processed_urls'' = Some v"
    and "v \<in> {JNull} \<union> range JBool \<union> range JNum"
  then show "load_checkpoint cm s = Inr (JList [])"
    using load_checkpoint_object[of s cm kvs] by auto
next
  fix v
  assume "files s (checkpoint_file cm) = Some (JsonFile (JObj kvs))"
    and "map_of kvs ''processed_urls'' = Some v"
    and "v \<in> range JList \<union> range JStr \<union> range JObj"
  then show "load_checkpoint cm s = Inr v"
    using load_checkpoint_object[of s cm kvs] by auto
next
  assume "load_checkpoint scraper_checkpoint_manager s = Inr v
        \<and> (\<forall>xs. v \<noteq> JList xs) \<and> py_contains v u = Inr False"
  then show "snd (scrape_all_reviews w (u # urls) s) = Inl AttributeError"
    using run_not_a_list[of s v u w urls] by blast
qed


theorem load_checkpoint_empty_or_stored_witness:
  "load_checkpoint scraper_checkpoint_manager no_files = Inr (JList [])
   \<and> load_checkpoint scraper_checkpoint_manager
        (no_files\<lparr>files := [CHECKPOINT_FILE \<mapsto> Garbage]\<rparr>) = Inr (JList [])
   \<and> load_checkpoint scraper_checkpoint_manager
        (no_files\<lparr>files := [CHECKPOINT_FILE \<mapsto> JsonFile (JObj [(''total_reviews'', JNum 3)])]\<rparr>)
      = Inr (JList [])
   \<and> load_checkpoint scraper_checkpoint_manager
        (no_files\<lparr>files := [CHECKPOINT_FILE \<mapsto> JsonFile (JObj [(''processed_urls'', JNull)])]\<rparr>)
      = Inr (JList [])
   \<and> load_checkpoint scraper_checkpoint_manager
        (no_files\<lparr>files :=
           [CHECKPOINT_FILE \<mapsto> JsonFile (JObj [(''processed_urls'', JList [JStr ''a''])])]\<rparr>)
      = Inr (JList [JStr ''a''])
   \<and> load_checkpoint scraper_checkpoint_manager string_checkpoint = Inr (JStr ''abc'')
   \<and> snd (scrape_all_reviews timeout_world [''https://z.example/r/''] string_checkpoint)
     = Inl AttributeError"
proof -
  let ?cm = scraper_checkpoint_manager
  have f: "checkpoint_file ?cm = CHECKPOINT_FILE" by (simp add: scraper_checkpoint_manager_def)
  have 1: "load_checkpoint ?cm no_files = Inr (JList [])"
    using load_checkpoint_empty_or_stored[where cm = ?cm and s = no_files]
    by (simp add: no_files_def)
  have 2: "load_checkpoint ?cm (no_files\<lparr>files := [CHECKPOINT_FILE \<mapsto> Garbage]\<rparr>)
      = Inr (JList [])"
    using load_checkpoint_empty_or_stored
      [where cm = ?cm and s = "no_files\<lparr>files := [CHECKPOINT_FILE \<mapsto> Garbage]\<rparr>"]
    by (simp add: f)
  have 3: "load_checkpoint ?cm
        (no_files\<lparr>files := [CHECKPOINT_FILE \<mapsto> JsonFile (JObj [(''total_reviews'', JNum 3)])]\<rparr>)
      = Inr (JList [])"
    using load_checkpoint_empty_or_stored
      [where cm = ?cm and kvs = "[(''total_reviews'', JNum 3)]"
         and s = "no_files\<lparr>files :=
                    [CHECKPOINT_FILE \<mapsto> JsonFile (JObj [(''total_reviews'', JNum 3)])]\<rparr>"]
    by (simp add: f)
  have 4: "load_checkpoint ?cm
        (no_files\<lparr>files := [CHECKPOINT_FILE \<mapsto> JsonFile (JObj [(''processed_urls'', JNull)])]\<rparr>)
      = Inr (JList [])"
    using load_checkpoint_empty_or_stored
      [where cm = ?cm and kvs = "[(''processed_urls'', JNull)]"
         and s = "no_files\<lparr>files :=
                    [CHECKPOINT_FILE \<mapsto> JsonFile (JObj [(''processed_urls'', JNull)])]\<rparr>"]
    by (simp add: f)
  have 5: "load_checkpoint ?cm
        (no_files\<lparr>files :=
           [CHECKPOINT_FILE \<mapsto> JsonFile (JObj [(''processed_urls'', JList [JStr ''a''])])]\<rparr>)
      = Inr (JList [JStr ''a''])"
    using load_checkpoint_empty_or_stored
      [where cm = ?cm and kvs = "[(''processed_urls'', JList [JStr ''a''])]"
         and s = "no_files\<lparr>files :=
           [CHECKPOINT_FILE \<mapsto> JsonFile (JObj [(''processed_urls'', JList [JStr ''a''])])]\<rparr>"]
    by (simp add: f)
  have 6: "load_checkpoint ?cm string_checkpoint = Inr (JStr ''abc'')"
    using load_checkpoint_empty_or_stored
      [where cm = ?cm and kvs = "[(''processed_urls'', JStr ''abc'')]" and s = string_checkpoint]
    by (simp add: f string_checkpoint_def)
  have c: "py_contains (JStr ''abc'') ''https://z.example/r/'' = Inr False"
    by code_simp
  have 7: "snd (scrape_all_reviews timeout_world [''https://z.example/r/''] string_checkpoint)
     = Inl AttributeError"
    using load_checkpoint_empty_or_stored
      [where s = string_checkpoint and v = "JStr ''abc''" and u = "''https://z.example/r/''"
         and w = timeout_world and urls = "[]"] 6 c
    by simp
  show ?thesis using 1 2 3 4 5 6 7 by simp
qed

text \<open>
  Claim C5. For every list of identifiers \<open>ids\<close> and every list of reviews, when the
  checkpoint file can be written, \<open>save_checkpoint\<close> returns normally and a following
  \<open>load_checkpoint\<close> returns exactly \<open>ids\<close>, in the same order.
\<close>

theorem checkpoint_round_trip:
  assumes "can_write w (checkpoint_file cm)"
  shows "snd (save_checkpoint w cm (JList (map JStr ids)) all_revs s) = Inr ()
         \<and> load_checkpoint cm (fst (save_checkpoint w cm (JList (map JStr ids)) all_revs s))
           = Inr (JList (map JStr ids))"
  using assms
  by (simp add: save_checkpoint_def load_checkpoint_def load_body_def Let_def)

theorem checkpoint_round_trip_witness:
  "snd (save_checkpoint
          \<lparr>session_get = (\<lambda>n url. Inl Timeout), BeautifulSoup = (\<lambda>t. Inl Exception),
           now_isoformat = (\<lambda>n. ''2024-01-01T00:00:00''), can_write = (\<lambda>p. True)\<rparr>
          \<lparr>checkpoint_file = ''test_checkpoint.json''\<rparr>
          (JList (map JStr [''url1'', ''url2'', ''url3'']))
          []
          \<lparr>requests = 0, clock_reads = 0, files = Map.empty\<rparr>) = Inr ()
   \<and> load_checkpoint \<lparr>checkpoint_file = ''test_checkpoint.json''\<rparr>
       (fst (save_checkpoint
          \<lparr>session_get = (\<lambda>n url. Inl Timeout), BeautifulSoup = (\<lambda>t. Inl Exception),
           now_isoformat = (\<lambda>n. ''2024-01-01T00:00:00''), can_write = (\<lambda>p. True)\<rparr>
          \<lparr>checkpoint_file = ''test_checkpoint.json''\<rparr>
          (JList (map JStr [''url1'', ''url2'', ''url3'']))
          []
          \<lparr>requests = 0, clock_reads = 0, files = Map.empty\<rparr>))
     = Inr (JList (map JStr [''url1'', ''url2'', ''url3'']))"
  using checkpoint_round_trip
    [of "\<lparr>session_get = (\<lambda>n url. Inl Timeout), BeautifulSoup = (\<lambda>t. Inl Exception),
           now_isoformat = (\<lambda>n. ''2024-01-01T00:00:00''), can_write = (\<lambda>p. True)\<rparr>"
        "\<lparr>checkpoint_file = ''test_checkpoint.json''\<rparr>"
        "[''url1'', ''url2'', ''url3'']" "[]"
        "\<lparr>requests = 0, clock_reads = 0, files = Map.empty\<rparr>"]
  by simp

section \<open>Pipeline orchestrator\<close>

lemma grown_Nil: "grown p [] = p"
  by (cases p) (simp_all add: grown_def)

lemma grown_grown: "grown (grown p ys) zs = grown p (ys @ zs)"
  by (cases p) (simp_all add: grown_def)

lemma py_append_grown: "py_append p u = Inr p' \<Longrightarrow> p' = grown p [JStr u]"
  by (cases p) (simp_all add: grown_def)

lemma periodic_save_processed: "processed_urls (fst (periodic_save w i st)) = processed_urls st"
  unfolding periodic_save_def Let_def by (simp split: prod.split sum.split)

lemma url_step_grows:
  "\<exists>ys. processed_urls (fst (url_step w ix st)) = grown (processed_urls st) ys"
proof (cases "py_contains (processed_urls st) (snd ix)")
  case (Inl e)
  then have "fst (url_step w ix st) = st" by (simp add: url_step_def Let_def)
  then show ?thesis using grown_Nil[of "processed_urls st"] by metis
next
  case (Inr b)
  show ?thesis
  proof (cases b)
    case True
    then have "fst (url_step w ix st) = st" using Inr by (simp add: url_step_def Let_def)
    then show ?thesis using grown_Nil[of "processed_urls st"] by metis
  next
    case False
    obtain s1 rs where sc: "scrape_restaurant_reviews w (snd ix) (outside st) = (s1, Inr rs)"
      using scrape_restaurant_reviews_returns by blast
    let ?st1 = "st\<lparr>outside := s1, all_reviews := all_reviews st @ rs\<rparr>"
    show ?thesis
    proof (cases "py_append (processed_urls st) (snd ix)")
      case (Inl e)
      then have "fst (url_step w ix st) = ?st1"
        using Inr False sc by (simp add: url_step_def Let_def)
      then have "processed_urls (fst (url_step w ix st)) = processed_urls st" by simp
      then show ?thesis using grown_Nil[of "processed_urls st"] by metis
    next
      case (Inr p)
      then have "url_step w ix st = periodic_save w (fst ix) (?st1\<lparr>processed_urls := p\<rparr>)"
        using \<open>py_contains (processed_urls st) (snd ix) = Inr b\<close> False sc
        by (simp add: url_step_def Let_def)
      then have "processed_urls (fst (url_step w ix st)) = p"
        by (simp add: periodic_save_processed)
      then show ?thesis using py_append_grown[OF Inr] by blast
    qed
  qed
qed

lemma urls_loop_grows:
  "\<exists>ys. processed_urls (fst (urls_loop w its st)) = grown (processed_urls st) ys"
proof (induction its arbitrary: st)
  case Nil
  show ?case using grown_Nil[of "processed_urls st"] by (metis urls_loop.simps(1) fst_conv)
next
  case (Cons ix its)
  obtain st1 r where s: "url_step w ix st = (st1, r)" by (cases "url_step w ix st")
  obtain ys where y: "processed_urls st1 = grown (processed_urls st) ys"
    using url_step_grows[of w ix st] s by auto
  show ?case
  proof (cases r)
    case (Inl e)
    then show ?thesis using s y by auto
  next
    case (Inr u)
    obtain zs where "processed_urls (fst (urls_loop w its st1)) = grown (processed_urls st1) zs"
      using Cons.IH[of st1] by blast
    then have "processed_urls (fst (urls_loop w (ix # its) st)) = grown (processed_urls st) (ys @ zs)"
      using s Inr y by (simp add: grown_grown)
    then show ?thesis by blast
  qed
qed

lemma urls_loop_append:
  "urls_loop w (xs @ ys) st =
     (case urls_loop w xs st of
        (st', Inl e) \<Rightarrow> (st', Inl e)
      | (st', Inr u) \<Rightarrow> urls_loop w ys st')"
  by (induction xs arbitrary: st) (simp_all split: prod.split sum.split)

text \<open>
  Claim C9. Throughout one run of the orchestrator the processed collection only grows.
  The state after the first \<open>m\<close> identifiers of the loop is
  \<open>fst (urls_loop w (take m its) st)\<close> (the state in which the loop was left, if an
  exception ended it earlier). For \<open>m \<le> n\<close> the collection after \<open>n\<close> identifiers is the one
  after \<open>m\<close> identifiers with elements appended at its end, so nothing is removed and
  the order is kept. The collection at the end of \<open>scrape_all_reviews\<close> is the loaded
  checkpoint with elements appended.
\<close>

theorem processed_urls_only_grows:
  "(m \<le> n \<longrightarrow>
      (\<exists>ys. processed_urls (fst (urls_loop w (take n its) st))
            = grown (processed_urls (fst (urls_loop w (take m its) st))) ys))
   \<and> (load_checkpoint scraper_checkpoint_manager s = Inr loaded \<longrightarrow>
      (\<exists>ys. processed_urls (fst (scrape_all_reviews w urls s)) = grown loaded ys))"
proof (intro conjI impI)
  assume mn: "m \<le> n"
  have split: "take n its = take m its @ drop m (take n its)"
    using mn by (metis append_take_drop_id min.absorb1 take_take)
  obtain st1 r where l: "urls_loop w (take m its) st = (st1, r)"
    by (cases "urls_loop w (take m its) st")
  show "\<exists>ys. processed_urls (fst (urls_loop w (take n its) st))
            = grown (processed_urls (fst (urls_loop w (take m its) st))) ys"
  proof (cases r)
    case (Inl e)
    have "urls_loop w (take m its @ drop m (take n its)) st = (st1, Inl e)"
      using l Inl by (simp add: urls_loop_append)
    then have "urls_loop w (take n its) st = (st1, Inl e)" using split by simp
    then show ?thesis using l grown_Nil[of "processed_urls st1"] by (metis fst_conv)
  next
    case (Inr u)
    have "urls_loop w (take m its @ drop m (take n its)) st
        = urls_loop w (drop m (take n its)) st1"
      using l Inr by (simp add: urls_loop_append)
    then have "urls_loop w (take n its) st = urls_loop w (drop m (take n its)) st1"
      using split by simp
    then show ?thesis using l urls_loop_grows[of w "drop m (take n its)" st1] by simp
  qed
next
  assume ld: "load_checkpoint scraper_checkpoint_manager s = Inr loaded"
  let ?st0 = "\<lparr>outside = s, all_reviews = [], processed_urls = loaded\<rparr>"
  obtain st1 r where l: "urls_loop w (enumerate 0 urls) ?st0 = (st1, r)"
    by (cases "urls_loop w (enumerate 0 urls) ?st0")
  have "processed_urls (fst (scrape_all_reviews w urls s)) = processed_urls st1"
    unfolding scrape_all_reviews_def using ld l by (simp split: sum.split prod.split)
  moreover obtain ys where "processed_urls st1 = grown loaded ys"
    using urls_loop_grows[of w "enumerate 0 urls" ?st0] l by auto
  ultimately show "\<exists>ys. processed_urls (fst (scrape_all_reviews w urls s)) = grown loaded ys"
    by auto
qed

theorem processed_urls_only_grows_witness:
  "(\<exists>ys. processed_urls (fst (urls_loop timeout_world
              (take 2 (enumerate 0 [''https://z.example/a'', ''https://z.example/b'']))
              \<lparr>outside = no_files, all_reviews = [], processed_urls = JList []\<rparr>))
        = grown (processed_urls (fst (urls_loop timeout_world
              (take 1 (enumerate 0 [''https://z.example/a'', ''https://z.example/b'']))
              \<lparr>outside = no_files, all_reviews = [], processed_urls = JList []\<rparr>))) ys)
   \<and> (\<exists>ys. processed_urls (fst (scrape_all_reviews timeout_world
              [''https://z.example/a'', ''https://z.example/b''] no_files))
        = grown (JList []) ys)
   \<and> processed_urls (fst (urls_loop timeout_world
          (take 1 (enumerate 0 [''https://z.example/a'', ''https://z.example/b'']))
          \<lparr>outside = no_files, all_reviews = [], processed_urls = JList []\<rparr>))
      = JList [JStr ''https://z.example/a'']
   \<and> processed_urls (fst (urls_loop timeout_world
          (take 2 (enumerate 0 [''https://z.example/a'', ''https://z.example/b'']))
          \<lparr>outside = no_files, all_reviews = [], processed_urls = JList []\<rparr>))
      = JList [JStr ''https://z.example/a'', JStr ''https://z.example/b'']"
proof -
  have le: "(1::nat) \<le> 2" by simp
  have ld: "load_checkpoint scraper_checkpoint_manager no_files = Inr (JList [])"
    by code_simp
  have a: "processed_urls (fst (urls_loop timeout_world
          (take 1 (enumerate 0 [''https://z.example/a'', ''https://z.example/b'']))
          \<lparr>outside = no_files, all_reviews = [], processed_urls = JList []\<rparr>))
      = JList [JStr ''https://z.example/a'']"
    by code_simp
  have b: "processed_urls (fst (urls_loop timeout_world
          (take 2 (enumerate 0 [''https://z.example/a'', ''https://z.example/b'']))
          \<lparr>outside = no_files, all_reviews = [], processed_urls = JList []\<rparr>))
      = JList [JStr ''https://z.example/a'', JStr ''https://z.example/b'']"
    by code_simp
  note t = processed_urls_only_grows[of 1 2 timeout_world
      "enumerate 0 [''https://z.example/a'', ''https://z.example/b'']"
      "\<lparr>outside = no_files, all_reviews = [], processed_urls = JList []\<rparr>"
      no_files "JList []" "[''https://z.example/a'', ''https://z.example/b'']"]
  show ?thesis using t le ld a b by blast
qed

lemma save_checkpoint_list:
  assumes "can_write w (checkpoint_file cm)"
  shows "\<exists>s'. save_checkpoint w cm (JList xs) revs s = (s', Inr ())
           \<and> requests s' = requests s
           \<and> load_checkpoint cm s' = Inr (JList xs)"
  using assms by (simp add: save_checkpoint_def load_checkpoint_def load_body_def Let_def)

lemma save_checkpoint_readonly:
  assumes "\<not> can_write w (checkpoint_file cm)"
  shows "snd (save_checkpoint w cm (JList xs) revs s) = Inl OSError"
  using assms by (simp add: save_checkpoint_def Let_def)

lemma periodic_save_list:
  assumes "processed_urls st = JList xs"
    and "can_write w CHECKPOINT_FILE" and "can_write w (''temp_'' @ OUTPUT_FILE)"
  shows "\<exists>st'. periodic_save w i st = (st', Inr ())
           \<and> processed_urls st' = JList xs
           \<and> all_reviews st' = all_reviews st
           \<and> requests (outside st') = requests (outside st)"
proof -
  have "can_write w (checkpoint_file scraper_checkpoint_manager)"
    using assms(2) by (simp add: scraper_checkpoint_manager_def)
  then obtain s1 where "save_checkpoint w scraper_checkpoint_manager (JList xs) (all_reviews st)
      (outside st) = (s1, Inr ())" "requests s1 = requests (outside st)"
    using save_checkpoint_list[of w scraper_checkpoint_manager xs "all_reviews st" "outside st"]
    by blast
  then show ?thesis
    unfolding periodic_save_def Let_def using assms by simp
qed

lemma periodic_save_readonly:
  assumes "processed_urls st = JList xs" and "\<not> can_write w CHECKPOINT_FILE"
  shows "(\<exists>st'. periodic_save w i st = (st', Inl OSError))
         \<or> periodic_save w i st = (st, Inr ())"
proof (cases "(i + 1) mod CHUNK_SIZE = 0")
  case True
  have "\<not> can_write w (checkpoint_file scraper_checkpoint_manager)"
    using assms(2) by (simp add: scraper_checkpoint_manager_def)
  then have "snd (save_checkpoint w scraper_checkpoint_manager (JList xs) (all_reviews st)
      (outside st)) = Inl OSError"
    by (rule save_checkpoint_readonly)
  then obtain s1 where "save_checkpoint w scraper_checkpoint_manager (JList xs) (all_reviews st)
      (outside st) = (s1, Inl OSError)"
    by (cases "save_checkpoint w scraper_checkpoint_manager (JList xs) (all_reviews st)
      (outside st)") simp
  then show ?thesis unfolding periodic_save_def Let_def using True assms(1) by simp
next
  case False
  then show ?thesis unfolding periodic_save_def by simp
qed

lemma url_step_skip:
  assumes "processed_urls st = JList ps" and "JStr u \<in> set ps"
  shows "url_step w (i, u) st = (st, Inr ())"
  using assms by (simp add: url_step_def Let_def)

lemma url_step_new:
  assumes "processed_urls st = JList ps" and "JStr u \<notin> set ps"
    and "can_write w CHECKPOINT_FILE" and "can_write w (''temp_'' @ OUTPUT_FILE)"
    and "scrape_restaurant_reviews w u (outside st) = (s1, Inr rs)"
  shows "\<exists>st'. url_step w (i, u) st = (st', Inr ())
           \<and> processed_urls st' = JList (ps @ [JStr u])
           \<and> all_reviews st' = all_reviews st @ rs
           \<and> requests (outside st') = requests s1"
proof -
  let ?st2 = "st\<lparr>outside := s1, all_reviews := all_reviews st @ rs,
                 processed_urls := JList (ps @ [JStr u])\<rparr>"
  have step: "url_step w (i, u) st = periodic_save w i ?st2"
    using assms(1,2,5) by (simp add: url_step_def Let_def)
  have "processed_urls ?st2 = JList (ps @ [JStr u])" by simp
  then obtain st' where "periodic_save w i ?st2 = (st', Inr ())"
    "processed_urls st' = JList (ps @ [JStr u])"
    "all_reviews st' = all_reviews ?st2" "requests (outside st') = requests (outside ?st2)"
    using periodic_save_list[OF _ assms(3,4), of ?st2 "ps @ [JStr u]" i] by blast
  then show ?thesis using step by simp
qed

lemma url_step_list:
  assumes "processed_urls st = JList ps"
    and "can_write w CHECKPOINT_FILE" and "can_write w (''temp_'' @ OUTPUT_FILE)"
  shows "\<exists>st'. url_step w ix st = (st', Inr ())
           \<and> processed_urls st'
             = JList (if JStr (snd ix) \<in> set ps then ps else ps @ [JStr (snd ix)])"
proof (cases "JStr (snd ix) \<in> set ps")
  case True
  then show ?thesis using url_step_skip[OF assms(1), of "snd ix" w "fst ix"] assms(1) by simp
next
  case False
  obtain s1 rs where sc: "scrape_restaurant_reviews w (snd ix) (outside st) = (s1, Inr rs)"
    using scrape_restaurant_reviews_returns by blast
  show ?thesis
    using url_step_new[OF assms(1) False assms(2,3) sc, of "fst ix"] False by auto
qed

lemma urls_loop_list:
  assumes "can_write w CHECKPOINT_FILE" and "can_write w (''temp_'' @ OUTPUT_FILE)"
    and "processed_urls st = JList ps"
  shows "\<exists>st' new. urls_loop w its st = (st', Inr ())
           \<and> processed_urls st' = JList (ps @ new)
           \<and> (\<forall>ix\<in>set its. JStr (snd ix) \<in> set (ps @ new))"
  using assms(3)
proof (induction its arbitrary: st ps)
  case Nil
  then show ?case by simp
next
  case (Cons ix its)
  let ?ps1 = "if JStr (snd ix) \<in> set ps then ps else ps @ [JStr (snd ix)]"
  obtain st1 where s: "url_step w ix st = (st1, Inr ())" and p1: "processed_urls st1 = JList ?ps1"
    using url_step_list[OF Cons.prems assms(1,2), of ix] by blast
  obtain st' new where l: "urls_loop w its st1 = (st', Inr ())"
    and p': "processed_urls st' = JList (?ps1 @ new)"
    and all: "\<forall>ix\<in>set its. JStr (snd ix) \<in> set (?ps1 @ new)"
    using Cons.IH[OF p1] by blast
  show ?case
  proof (cases "JStr (snd ix) \<in> set ps")
    case True
    then have "urls_loop w (ix # its) st = (st', Inr ())" "processed_urls st' = JList (ps @ new)"
      "\<forall>jx\<in>set (ix # its). JStr (snd jx) \<in> set (ps @ new)"
      using s l p' all by simp_all
    then show ?thesis by blast
  next
    case False
    then have "urls_loop w (ix # its) st = (st', Inr ())"
      "processed_urls st' = JList (ps @ (JStr (snd ix) # new))"
      "\<forall>jx\<in>set (ix # its). JStr (snd jx) \<in> set (ps @ (JStr (snd ix) # new))"
      using s l p' all by simp_all
    then show ?thesis by blast
  qed
qed

lemma urls_loop_all_processed:
  assumes "processed_urls st = JList ps" and "\<forall>ix\<in>set its. JStr (snd ix) \<in> set ps"
  shows "urls_loop w its st = (st, Inr ())"
  using assms(2)
proof (induction its)
  case Nil
  then show ?case by simp
next
  case (Cons ix its)
  have "url_step w (fst ix, snd ix) st = (st, Inr ())"
    using Cons.prems by (intro url_step_skip[OF assms(1)]) simp
  then show ?case using Cons by simp
qed

lemma url_step_readonly:
  assumes "processed_urls st = JList ps" and "\<not> can_write w CHECKPOINT_FILE"
  shows "(\<exists>st'. url_step w ix st = (st', Inl OSError))
         \<or> (\<exists>st' qs. url_step w ix st = (st', Inr ()) \<and> processed_urls st' = JList qs)"
proof (cases "JStr (snd ix) \<in> set ps")
  case True
  then show ?thesis using url_step_skip[OF assms(1), of "snd ix" w "fst ix"] assms(1) by simp
next
  case False
  obtain s1 rs where sc: "scrape_restaurant_reviews w (snd ix) (outside st) = (s1, Inr rs)"
    using scrape_restaurant_reviews_returns by blast
  let ?st2 = "st\<lparr>outside := s1, all_reviews := all_reviews st @ rs,
                 processed_urls := JList (ps @ [JStr (snd ix)])\<rparr>"
  have step: "url_step w ix st = periodic_save w (fst ix) ?st2"
    using assms(1) False sc by (simp add: url_step_def Let_def)
  have p2: "processed_urls ?st2 = JList (ps @ [JStr (snd ix)])" by simp
  show ?thesis
    using periodic_save_readonly[OF p2 assms(2), of "fst ix"] step p2 by metis
qed

lemma urls_loop_readonly:
  assumes "\<not> can_write w CHECKPOINT_FILE" and "processed_urls st = JList ps"
  shows "(\<exists>st'. urls_loop w its st = (st', Inl OSError))
         \<or> (\<exists>st' qs. urls_loop w its st = (st', Inr ()) \<and> processed_urls st' = JList qs)"
  using assms(2)
proof (induction its arbitrary: st ps)
  case Nil
  then show ?case by simp
next
  case (Cons ix its)
  consider st1 where "url_step w ix st = (st1, Inl OSError)"
    | st1 qs where "url_step w ix st = (st1, Inr ())" "processed_urls st1 = JList qs"
    using url_step_readonly[OF Cons.prems assms(1), of ix] by blast
  then show ?case
  proof cases
    case 1
    then show ?thesis by simp
  next
    case 2
    then show ?thesis using Cons.IH[OF 2(2)] by simp
  qed
qed

lemma run_readonly:
  assumes "\<not> can_write w CHECKPOINT_FILE"
    and "load_checkpoint scraper_checkpoint_manager s = Inr (JList ps)"
  shows "snd (scrape_all_reviews w urls s) = Inl OSError"
proof -
  let ?st0 = "\<lparr>outside = s, all_reviews = [], processed_urls = JList ps\<rparr>"
  have p0: "processed_urls ?st0 = JList ps" by simp
  consider st1 where "urls_loop w (enumerate 0 urls) ?st0 = (st1, Inl OSError)"
    | st1 qs where "urls_loop w (enumerate 0 urls) ?st0 = (st1, Inr ())"
        "processed_urls st1 = JList qs"
    using urls_loop_readonly[OF assms(1) p0, of "enumerate 0 urls"] by blast
  then show ?thesis
  proof cases
    case 1
    then show ?thesis unfolding scrape_all_reviews_def using assms(2) by simp
  next
    case 2
    have nw: "\<not> can_write w (checkpoint_file scraper_checkpoint_manager)"
      using assms(1) by (simp add: scraper_checkpoint_manager_def)
    have "snd (save_checkpoint w scraper_checkpoint_manager (JList qs) (all_reviews st1)
        (outside st1)) = Inl OSError"
      using nw by (rule save_checkpoint_readonly)
    then obtain s' where "save_checkpoint w scraper_checkpoint_manager (JList qs) (all_reviews st1)
        (outside st1) = (s', Inl OSError)"
      by (cases "save_checkpoint w scraper_checkpoint_manager (JList qs) (all_reviews st1)
        (outside st1)") simp
    then show ?thesis unfolding scrape_all_reviews_def using assms(2) 2 by simp
  qed
qed

lemma run_list:
  assumes "can_write w CHECKPOINT_FILE" and "can_write w (''temp_'' @ OUTPUT_FILE)"
    and "load_checkpoint scraper_checkpoint_manager s = Inr (JList ps)"
  shows "\<exists>st new. scrape_all_reviews w urls s = (st, Inr (all_reviews st))
           \<and> processed_urls st = JList (ps @ new)
           \<and> (\<forall>u\<in>set urls. JStr u \<in> set (ps @ new))
           \<and> load_checkpoint scraper_checkpoint_manager (outside st) = Inr (JList (ps @ new))"
proof -
  let ?cm = scraper_checkpoint_manager
  let ?st0 = "\<lparr>outside = s, all_reviews = [], processed_urls = JList ps\<rparr>"
  have p0: "processed_urls ?st0 = JList ps" by simp
  obtain st1 new where l: "urls_loop w (enumerate 0 urls) ?st0 = (st1, Inr ())"
    and p1: "processed_urls st1 = JList (ps @ new)"
    and all: "\<forall>ix\<in>set (enumerate 0 urls). JStr (snd ix) \<in> set (ps @ new)"
    using urls_loop_list[OF assms(1,2) p0, of "enumerate 0 urls"] by blast
  have cw: "can_write w (checkpoint_file ?cm)"
    using assms(1) by (simp add: scraper_checkpoint_manager_def)
  obtain s' where sv: "save_checkpoint w ?cm (JList (ps @ new)) (all_reviews st1) (outside st1)
      = (s', Inr ())"
    and ld: "load_checkpoint ?cm s' = Inr (JList (ps @ new))"
    using save_checkpoint_list[OF cw, of "ps @ new" "all_reviews st1" "outside st1"] by blast
  have run: "scrape_all_reviews w urls s = (st1\<lparr>outside := s'\<rparr>, Inr (all_reviews st1))"
    unfolding scrape_all_reviews_def using assms(3) l p1 sv by simp
  have "\<forall>u\<in>set urls. JStr u \<in> set (ps @ new)"
  proof
    fix u assume "u \<in> set urls"
    then have "u \<in> snd ` set (enumerate 0 urls)"
      by (metis map_snd_enumerate set_map)
    then show "JStr u \<in> set (ps @ new)" using all by auto
  qed
  then show ?thesis using run p1 ld by simp
qed

lemma run_again:
  assumes "can_write w CHECKPOINT_FILE"
    and "load_checkpoint scraper_checkpoint_manager s = Inr (JList ps)"
    and "\<forall>u\<in>set urls. JStr u \<in> set ps"
  shows "\<exists>st. scrape_all_reviews w urls s = (st, Inr [])
           \<and> processed_urls st = JList ps
           \<and> requests (outside st) = requests s"
proof -
  let ?cm = scraper_checkpoint_manager
  let ?st0 = "\<lparr>outside = s, all_reviews = [], processed_urls = JList ps\<rparr>"
  have p0: "processed_urls ?st0 = JList ps" by simp
  have "\<forall>ix\<in>set (enumerate 0 urls). JStr (snd ix) \<in> set ps"
  proof
    fix ix assume "ix \<in> set (enumerate 0 urls)"
    then have "snd ix \<in> set (map snd (enumerate 0 urls))" by (simp only: set_map) (rule imageI)
    then have "snd ix \<in> set urls" by (simp only: map_snd_enumerate)
    then show "JStr (snd ix) \<in> set ps" using assms(3) by blast
  qed
  then have l: "urls_loop w (enumerate 0 urls) ?st0 = (?st0, Inr ())"
    by (rule urls_loop_all_processed[OF p0])
  have cw: "can_write w (checkpoint_file ?cm)"
    using assms(1) by (simp add: scraper_checkpoint_manager_def)
  obtain s' where sv: "save_checkpoint w ?cm (JList ps) [] s = (s', Inr ())"
    and rq: "requests s' = requests s"
    using save_checkpoint_list[OF cw, of ps "[]" s] by blast
  have "scrape_all_reviews w urls s = (?st0\<lparr>outside := s'\<rparr>, Inr [])"
    unfolding scrape_all_reviews_def using assms(2) l sv by simp
  then show ?thesis using rq by simp
qed


lemma url_step_page_error:
  assumes "processed_urls st = JList qs" and "JStr u \<notin> set qs"
    and "can_write w CHECKPOINT_FILE" and "can_write w (''temp_'' @ OUTPUT_FILE)"
    and "1 \<le> k" and "k \<le> MAX_PAGES"
    and "\<forall>j. 1 \<le> j \<and> j < k \<longrightarrow>
           page_texts w (get_review_url u) (requests (outside st) + (j - 1)) j = Some (texts j)
           \<and> texts j \<noteq> []"
    and "page_texts w (get_review_url u) (requests (outside st) + (k - 1)) k = None"
  shows "\<exists>st'. url_step w (i, u) st = (st', Inr ())
           \<and> urls_loop w ((i, u) # rest) st = urls_loop w rest st'
           \<and> processed_urls st' = JList (qs @ [JStr u])
           \<and> requests (outside st') = requests (outside st) + k
           \<and> map (\<lambda>r. (restaurant_url r, page r, review r)) (all_reviews st')
             = map (\<lambda>r. (restaurant_url r, page r, review r)) (all_reviews st)
               @ concat (map (\<lambda>j. map (\<lambda>t. (u, j, Some t)) (texts j)) [1..<k])"
proof -
  have le: "k \<le> MAX_PAGES + 1" using assms(6) by simp
  have halt: "k \<le> MAX_PAGES \<longrightarrow>
           page_texts w (get_review_url u) (requests (outside st) + (k - 1)) k = None
           \<or> page_texts w (get_review_url u) (requests (outside st) + (k - 1)) k = Some []"
    using assms(8) by simp
  have m: "min k MAX_PAGES = k" using assms(6) by simp
  obtain s1 rs where sc: "scrape_restaurant_reviews w u (outside st) = (s1, Inr rs)"
    and rq: "requests s1 = requests (outside st) + k"
    and pr: "map (\<lambda>r. (restaurant_url r, page r, review r)) rs
             = concat (map (\<lambda>j. map (\<lambda>t. (u, j, Some t)) (texts j)) [1..<k])"
    using scrape_until_halt[OF assms(5) le assms(7) halt] unfolding m by blast
  obtain st' where s: "url_step w (i, u) st = (st', Inr ())"
    and p: "processed_urls st' = JList (qs @ [JStr u])"
    and a: "all_reviews st' = all_reviews st @ rs"
    and r: "requests (outside st') = requests s1"
    using url_step_new[OF assms(1,2,3,4) sc, of i] by blast
  have "urls_loop w ((i, u) # rest) st = urls_loop w rest st'" using s by simp
  then show ?thesis using s p a r rq pr by simp
qed

text \<open>
  Claim C1, as stated: an error while processing an identifier is caught by the
  orchestrator, which does not add the identifier to the processed collection and goes on
  with the next identifier, so that the failed one is retried on a later run. It fails in
  both ways in which an identifier can meet an error. When every request times out, the
  run over one identifier returns no review, has the identifier in its processed
  collection, and writes it to the checkpoint that the next run loads. When the checkpoint
  file cannot be written, the periodic save after the tenth of eleven identifiers raises
  \<open>OSError\<close>, which the orchestrator does not catch: the run ends there, with ten
  identifiers in the processed collection, and the eleventh is never reached.
\<close>

theorem failed_identifier_counterexample:
  "processed_urls (fst (scrape_all_reviews timeout_world [''https://z.example/r/''] no_files))
     = JList [JStr ''https://z.example/r/'']
   \<and> snd (scrape_all_reviews timeout_world [''https://z.example/r/''] no_files) = Inr []
   \<and> load_checkpoint scraper_checkpoint_manager
       (outside (fst (scrape_all_reviews timeout_world [''https://z.example/r/''] no_files)))
     = Inr (JList [JStr ''https://z.example/r/''])
   \<and> snd (scrape_all_reviews readonly_world eleven_urls no_files) = Inl OSError
   \<and> processed_urls (fst (scrape_all_reviews readonly_world eleven_urls no_files))
     = JList (map JStr (take 10 eleven_urls))"
  by code_simp

text \<open>
  Claim C1, amended. The orchestrator has no handler of its own.

  When the checkpoint file and the intermediate export file can be written: if pages 1 to
  \<open>k - 1\<close> of an identifier \<open>u\<close> that is not yet processed succeed and page \<open>k\<close> fails (the
  request raises, its status is not 200, or parsing raises), the failure is dealt with
  inside the page crawler, which stops after \<open>k\<close> requests; the step of the orchestrator
  returns normally, adds the records of pages 1 to \<open>k - 1\<close> to the reviews and \<open>u\<close> to the
  processed collection, and the loop goes on with the next identifier. A run that starts
  from a checkpoint holding a list returns the reviews it collected, whatever the page
  outcomes; at its end every identifier of the input is in the processed collection,
  which is what the final checkpoint holds, and a second run from that state over the same
  identifiers makes no request and returns no review: an identifier whose crawl failed is
  skipped, not retried.

  When the checkpoint file cannot be written, a run that starts from a checkpoint holding
  a list ends with \<open>OSError\<close>: an error in the orchestrator's own step is not caught.
\<close>

theorem failed_identifier_is_marked_processed:
  "(can_write w CHECKPOINT_FILE \<and> can_write w (''temp_'' @ OUTPUT_FILE) \<longrightarrow>
      (processed_urls st = JList qs \<and> JStr u \<notin> set qs \<and> 1 \<le> k \<and> k \<le> MAX_PAGES
        \<and> (\<forall>j. 1 \<le> j \<and> j < k \<longrightarrow>
              page_texts w (get_review_url u) (requests (outside st) + (j - 1)) j
                = Some (texts j) \<and> texts j \<noteq> [])
        \<and> page_texts w (get_review_url u) (requests (outside st) + (k - 1)) k = None
       \<longrightarrow> (\<exists>st'. url_step w (i, u) st = (st', Inr ())
              \<and> urls_loop w ((i, u) # rest) st = urls_loop w rest st'
              \<and> processed_urls st' = JList (qs @ [JStr u])
              \<and> requests (outside st') = requests (outside st) + k
              \<and> map (\<lambda>r. (restaurant_url r, page r, review r)) (all_reviews st')
                = map (\<lambda>r. (restaurant_url r, page r, review r)) (all_reviews st)
                  @ concat (map (\<lambda>j. map (\<lambda>t. (u, j, Some t)) (texts j)) [1..<k])))
    \<and> (load_checkpoint scraper_checkpoint_manager s = Inr (JList ps) \<longrightarrow>
        (\<exists>st new. scrape_all_reviews w urls s = (st, Inr (all_reviews st))
           \<and> processed_urls st = JList (ps @ new)
           \<and> (\<forall>u\<in>set urls. JStr u \<in> set (ps @ new))
           \<and> load_checkpoint scraper_checkpoint_manager (outside st) = Inr (JList (ps @ new))
           \<and> (\<exists>st2. scrape_all_reviews w urls (outside st) = (st2, Inr [])
                \<and> processed_urls st2 = JList (ps @ new)
                \<and> requests (outside st2) = requests (outside st)))))
   \<and> (\<not> can_write w CHECKPOINT_FILE
       \<and> load_checkpoint scraper_checkpoint_manager s = Inr (JList ps)
       \<longrightarrow> snd (scrape_all_reviews w urls s) = Inl OSError)"
proof (intro conjI impI)
  assume cw: "can_write w CHECKPOINT_FILE \<and> can_write w (''temp_'' @ OUTPUT_FILE)"
    and h: "processed_urls st = JList qs \<and> JStr u \<notin> set qs \<and> 1 \<le> k \<and> k \<le> MAX_PAGES
        \<and> (\<forall>j. 1 \<le> j \<and> j < k \<longrightarrow>
              page_texts w (get_review_url u) (requests (outside st) + (j - 1)) j
                = Some (texts j) \<and> texts j \<noteq> [])
        \<and> page_texts w (get_review_url u) (requests (outside st) + (k - 1)) k = None"
  show "\<exists>st'. url_step w (i, u) st = (st', Inr ())
              \<and> urls_loop w ((i, u) # rest) st = urls_loop w rest st'
              \<and> processed_urls st' = JList (qs @ [JStr u])
              \<and> requests (outside st') = requests (outside st) + k
              \<and> map (\<lambda>r. (restaurant_url r, page r, review r)) (all_reviews st')
                = map (\<lambda>r. (restaurant_url r, page r, review r)) (all_reviews st)
                  @ concat (map (\<lambda>j. map (\<lambda>t. (u, j, Some t)) (texts j)) [1..<k])"
    by (rule url_step_page_error) (use cw h in blast)+
next
  assume cw: "can_write w CHECKPOINT_FILE \<and> can_write w (''temp_'' @ OUTPUT_FILE)"
    and ld: "load_checkpoint scraper_checkpoint_manager s = Inr (JList ps)"
  have c1: "can_write w CHECKPOINT_FILE" and c2: "can_write w (''temp_'' @ OUTPUT_FILE)"
    using cw by simp_all
  obtain st new where run: "scrape_all_reviews w urls s = (st, Inr (all_reviews st))"
    and p: "processed_urls st = JList (ps @ new)"
    and all: "\<forall>u\<in>set urls. JStr u \<in> set (ps @ new)"
    and ld': "load_checkpoint scraper_checkpoint_manager (outside st) = Inr (JList (ps @ new))"
    using run_list[OF c1 c2 ld, of urls] by blast
  obtain st2 where "scrape_all_reviews w urls (outside st) = (st2, Inr [])"
    "processed_urls st2 = JList (ps @ new)" "requests (outside st2) = requests (outside st)"
    using run_again[OF c1 ld' all] by blast
  then show "\<exists>st new. scrape_all_reviews w urls s = (st, Inr (all_reviews st))
           \<and> processed_urls st = JList (ps @ new)
           \<and> (\<forall>u\<in>set urls. JStr u \<in> set (ps @ new))
           \<and> load_checkpoint scraper_checkpoint_manager (outside st) = Inr (JList (ps @ new))
           \<and> (\<exists>st2. scrape_all_reviews w urls (outside st) = (st2, Inr [])
                \<and> processed_urls st2 = JList (ps @ new)
                \<and> requests (outside st2) = requests (outside st))"
    using run p all ld' by blast
next
  assume "\<not> can_write w CHECKPOINT_FILE
       \<and> load_checkpoint scraper_checkpoint_manager s = Inr (JList ps)"
  then show "snd (scrape_all_reviews w urls s) = Inl OSError"
    using run_readonly[of w s ps urls] by blast
qed


theorem failed_identifier_is_marked_processed_witness:
  "(\<exists>st'. url_step one_page_world (0, ''https://z.example/a'')
              \<lparr>outside = no_files, all_reviews = [], processed_urls = JList []\<rparr> = (st', Inr ())
      \<and> urls_loop one_page_world [(0, ''https://z.example/a''), (1, ''https://z.example/b'')]
              \<lparr>outside = no_files, all_reviews = [], processed_urls = JList []\<rparr>
        = urls_loop one_page_world [(1, ''https://z.example/b'')] st'
      \<and> processed_urls st' = JList ([] @ [JStr ''https://z.example/a''])
      \<and> requests (outside st') = requests no_files + 2
      \<and> map (\<lambda>r. (restaurant_url r, page r, review r)) (all_reviews st')
        = concat (map (\<lambda>j. map (\<lambda>t. (''https://z.example/a'', j, Some t))
                               [''The food here was great and cheap'']) [1..<2]))
   \<and> (\<exists>st new. scrape_all_reviews one_page_world
                   [''https://z.example/a'', ''https://z.example/b''] no_files
                 = (st, Inr (all_reviews st))
      \<and> processed_urls st = JList ([] @ new)
      \<and> (\<forall>u\<in>set [''https://z.example/a'', ''https://z.example/b'']. JStr u \<in> set ([] @ new))
      \<and> load_checkpoint scraper_checkpoint_manager (outside st) = Inr (JList ([] @ new))
      \<and> (\<exists>st2. scrape_all_reviews one_page_world
                   [''https://z.example/a'', ''https://z.example/b''] (outside st)
                 = (st2, Inr [])
           \<and> processed_urls st2 = JList ([] @ new)
           \<and> requests (outside st2) = requests (outside st)))
   \<and> snd (scrape_all_reviews readonly_world
             [''https://z.example/a'', ''https://z.example/b''] no_files) = Inl OSError
   \<and> processed_urls (fst (scrape_all_reviews one_page_world
             [''https://z.example/a'', ''https://z.example/b''] no_files))
     = JList [JStr ''https://z.example/a'', JStr ''https://z.example/b'']"
proof -
  let ?a = "''https://z.example/a''"
  let ?b = "''https://z.example/b''"
  let ?ts = "[''The food here was great and cheap'']"
  let ?st0 = "\<lparr>outside = no_files, all_reviews = [], processed_urls = JList []\<rparr>"
  have cw: "can_write one_page_world CHECKPOINT_FILE
      \<and> can_write one_page_world (''temp_'' @ OUTPUT_FILE)"
    by (simp add: one_page_world_def)
  have ro: "\<not> can_write readonly_world CHECKPOINT_FILE"
    by (simp add: readonly_world_def)
  have ld: "load_checkpoint scraper_checkpoint_manager no_files = Inr (JList [])"
    by code_simp
  have a1: "page_texts one_page_world (get_review_url ?a) 0 1 = Some ?ts"
    by code_simp
  have a2: "page_texts one_page_world (get_review_url ?a) 1 2 = None"
    by code_simp
  have r0: "requests (outside ?st0) = 0" by (simp add: no_files_def)
  have r0': "requests no_files = 0" by (simp add: no_files_def)
  have h: "processed_urls ?st0 = JList [] \<and> JStr ?a \<notin> set [] \<and> 1 \<le> (2::nat) \<and> 2 \<le> MAX_PAGES
        \<and> (\<forall>j. 1 \<le> j \<and> j < 2 \<longrightarrow>
              page_texts one_page_world (get_review_url ?a) (requests (outside ?st0) + (j - 1)) j
                = Some ?ts \<and> ?ts \<noteq> [])
        \<and> page_texts one_page_world (get_review_url ?a) (requests (outside ?st0) + (2 - 1)) 2
          = None"
  proof (intro conjI allI impI)
    fix j :: nat assume "1 \<le> j \<and> j < 2"
    then have "j = 1" by arith
    then show "page_texts one_page_world (get_review_url ?a) (requests (outside ?st0) + (j - 1)) j
        = Some ?ts"
      using a1 r0 by simp
  next
    show "page_texts one_page_world (get_review_url ?a) (requests (outside ?st0) + (2 - 1)) 2
          = None"
      using a2 r0 by simp
  qed (simp_all add: MAX_PAGES_def)
  note T = failed_identifier_is_marked_processed
    [where w = one_page_world and st = ?st0 and qs = "[]" and u = ?a and k = 2
       and texts = "\<lambda>j. ?ts" and i = 0 and rest = "[(1, ?b)]" and s = no_files and ps = "[]"
       and urls = "[?a, ?b]"]
  note T1 = T[THEN conjunct1, THEN mp, OF cw]
  note A = T1[THEN conjunct1, THEN mp, OF h]
  note B = T1[THEN conjunct2, THEN mp, OF ld]
  note R = failed_identifier_is_marked_processed
    [where w = readonly_world and s = no_files and ps = "[]" and urls = "[?a, ?b]",
     THEN conjunct2, THEN mp, OF conjI[OF ro ld]]
  have c: "processed_urls (fst (scrape_all_reviews one_page_world [?a, ?b] no_files))
     = JList [JStr ?a, JStr ?b]"
    by code_simp
  have A': "\<exists>st'. url_step one_page_world (0, ?a) ?st0 = (st', Inr ())
      \<and> urls_loop one_page_world [(0, ?a), (1, ?b)] ?st0
        = urls_loop one_page_world [(1, ?b)] st'
      \<and> processed_urls st' = JList ([] @ [JStr ?a])
      \<and> requests (outside st') = requests no_files + 2
      \<and> map (\<lambda>r. (restaurant_url r, page r, review r)) (all_reviews st')
        = concat (map (\<lambda>j. map (\<lambda>t. (?a, j, Some t)) ?ts) [1..<2])"
    using A by simp
  show ?thesis using A' B R c by (intro conjI)
qed

end
